theory Spec2Isabelle
  imports Main "HOL-Library.Word"
begin

section \<open>Bytes, sizes and element types\<close>

text \<open>
  A \<open>std::vector<char>\<close>, a \<open>std::string\<close> and the contents of a file are lists of
  bytes; a byte is a \<open>char\<close>, so the header text of the source can be written as it
  stands there. \<open>size_t\<close> is the 64-bit unsigned integer of an LP64 target; the sizes of
  the buffers held in memory are natural numbers (a vector never holds \<open>2^64\<close> bytes),
  and every conversion to a narrower integer is written out as \<open>mod\<close>.
\<close>

type_synonym byte = char
type_synonym size_t = "64 word"

definition quote :: char where
  "quote = CHR 0x27"

definition newline :: char where
  "newline = CHR 0x0A"

definition space :: char where
  "space = CHR 0x20"

text \<open>The exceptions of the library, one constructor for each \<open>throw\<close> of the source
  and for the exceptions of the standard library that its calls can raise.
  \<open>Undefined_Behaviour\<close> marks a path on which the C++ has no defined result
  (an index past the end of a vector, a read past the end of a buffer).\<close>

datatype error =
    Not_A_Numpy_File
  | Version_Not_Supported nat nat
  | Cannot_Read_Header_Length
  | Failed_To_Read_Header
  | Missing_Fortran_Order
  | Missing_Paren
  | Missing_Descr
  | Endian_Check_Failed
  | Std_Out_Of_Range
  | Std_Invalid_Argument
  | File_Is_Not_Open
  | Failed_Fread
  | File_Does_Not_Exist
  | Failed_Reading_Footer
  | Unexpected_EOCD
  | Append_Fortran_Order
  | Append_Wrong_Word_Size nat nat
  | Append_Wrong_Shape nat nat
  | Append_Wrong_Dimension nat nat
  | Header_Read_Error
  | Failed_Reading_Compressed
  | Failed_Initializing_Compression
  | Failed_Inflating
  | Failed_Finalizing_Inflation
  | Failed_Reading_Header
  | Failed_Reading_Variable_Name
  | Failed_Reading_Extra_Field
  | Undefined_Behaviour

text \<open>The element types \<open>T\<close> that \<open>map_type\<close> tells apart; \<open>T_Other n\<close> is any other
  type, of size \<open>n\<close>.\<close>

datatype ctype =
    T_Float | T_Double | T_LongDouble
  | T_Int | T_Char | T_Short | T_Long | T_LongLong
  | T_UChar | T_UShort | T_ULong | T_ULongLong | T_UInt
  | T_Bool
  | T_ComplexFloat | T_ComplexDouble | T_ComplexLongDouble
  | T_Other nat

fun map_type :: "ctype \<Rightarrow> char" where
  "map_type T_Float = CHR ''f''"
| "map_type T_Double = CHR ''f''"
| "map_type T_LongDouble = CHR ''f''"
| "map_type T_Int = CHR ''i''"
| "map_type T_Char = CHR ''i''"
| "map_type T_Short = CHR ''i''"
| "map_type T_Long = CHR ''i''"
| "map_type T_LongLong = CHR ''i''"
| "map_type T_UChar = CHR ''u''"
| "map_type T_UShort = CHR ''u''"
| "map_type T_ULong = CHR ''u''"
| "map_type T_ULongLong = CHR ''u''"
| "map_type T_UInt = CHR ''u''"
| "map_type T_Bool = CHR ''b''"
| "map_type T_ComplexFloat = CHR ''c''"
| "map_type T_ComplexDouble = CHR ''c''"
| "map_type T_ComplexLongDouble = CHR ''c''"
| "map_type (T_Other n) = CHR ''?''"

text \<open>\<open>sizeof(T)\<close> on the x86-64 LP64 target.\<close>

fun sizeof :: "ctype \<Rightarrow> nat" where
  "sizeof T_Float = 4"
| "sizeof T_Double = 8"
| "sizeof T_LongDouble = 16"
| "sizeof T_Int = 4"
| "sizeof T_Char = 1"
| "sizeof T_Short = 2"
| "sizeof T_Long = 8"
| "sizeof T_LongLong = 8"
| "sizeof T_UChar = 1"
| "sizeof T_UShort = 2"
| "sizeof T_ULong = 8"
| "sizeof T_ULongLong = 8"
| "sizeof T_UInt = 4"
| "sizeof T_Bool = 1"
| "sizeof T_ComplexFloat = 8"
| "sizeof T_ComplexDouble = 16"
| "sizeof T_ComplexLongDouble = 32"
| "sizeof (T_Other n) = n"

definition supported :: "ctype \<Rightarrow> bool" where
  "supported T = (map_type T \<noteq> CHR ''?'')"

text \<open>The bytes of an \<open>n\<close>-byte unsigned integer in the memory of the host, which
  stores the low byte first; the generic \<open>operator+=\<close> appends them in that order, and
  the readers cast the bytes they read back through \<open>le_val\<close>.\<close>

fun le_bytes :: "nat \<Rightarrow> nat \<Rightarrow> byte list" where
  "le_bytes 0 v = []"
| "le_bytes (Suc n) v = char_of (v mod 256) # le_bytes n (v div 256)"

fun le_val :: "byte list \<Rightarrow> nat" where
  "le_val [] = 0"
| "le_val (b # bs) = of_char b + 256 * le_val bs"

definition BigEndianTest :: char where
  "BigEndianTest = (if le_bytes 4 1 ! 0 \<noteq> CHR 0x00 then CHR ''<'' else CHR ''>'')"

text \<open>\<open>std::to_string\<close> of an unsigned value: its decimal digits.\<close>

definition digit_char :: "nat \<Rightarrow> char" where
  "digit_char d = ''0123456789'' ! d"

fun to_string :: "nat \<Rightarrow> string" where
  "to_string n =
     (if n < 10 then [digit_char n]
      else to_string (n div 10) @ [digit_char (n mod 10)])"

declare to_string.simps [simp del]

section \<open>Constants of the format\<close>

definition numpy_magic_length :: nat where
  "numpy_magic_length = 6"

definition numpy_magic :: "byte list" where
  "numpy_magic = CHR 0x93 # ''NUMPY''"

definition zip_header_length :: nat where
  "zip_header_length = 30"

definition zip_footer_length :: nat where
  "zip_footer_length = 22"

section \<open>Building the header of an array file\<close>

text \<open>The dictionary of \<open>create_npy_header\<close> as it stands before the padding is added.
  \<open>shape[0]\<close> of an empty shape reads past the end of the vector.\<close>

definition npy_dict :: "ctype \<Rightarrow> size_t list \<Rightarrow> error + string" where
  "npy_dict T shp =
     (case shp of
        [] \<Rightarrow> Inl Undefined_Behaviour
      | s0 # rest \<Rightarrow>
          let dict = ''{'descr': '' @ [quote];
              dict = dict @ [BigEndianTest];
              dict = dict @ [map_type T];
              dict = dict @ to_string (sizeof T);
              dict = dict @ ''', 'fortran_order': False, 'shape': ('';
              dict = dict @ to_string (unat s0);
              dict = foldl (\<lambda>d s. d @ '', '' @ to_string (unat s)) dict rest;
              dict = (if length shp = 1 then dict @ '','' else dict)
          in Inr (dict @ ''), }''))"

text \<open>The padding, the version bytes and the length field.\<close>

definition big_header :: "string \<Rightarrow> bool" where
  "big_header dict = (length dict + 1 > 65535)"

definition remainder :: "string \<Rightarrow> nat" where
  "remainder dict =
     64 - (numpy_magic_length + (if big_header dict then 4 else 2) + length dict + 1) mod 64"

definition padded :: "string \<Rightarrow> string" where
  "padded dict =
     (let d = dict @ replicate (remainder dict) space
      in d[length d - 1 := newline])"

definition create_npy_header :: "ctype \<Rightarrow> size_t list \<Rightarrow> error + byte list" where
  "create_npy_header T shp =
     (case npy_dict T shp of
        Inl e \<Rightarrow> Inl e
      | Inr dict0 \<Rightarrow>
          let big = big_header dict0;
              dict = padded dict0;
              header = numpy_magic;
              header = header @ [if big then CHR 0x02 else CHR 0x01];
              header = header @ [CHR 0x00];
              header = (if big then header @ le_bytes 4 (length dict mod 2 ^ 32)
                        else header @ le_bytes 2 (length dict mod 2 ^ 16))
          in Inr (header @ dict))"

text \<open>The two variable parts of the dictionary, named for the proofs: the text up to
  the opening parenthesis of the shape, and the dimensions after the first.\<close>

definition dict_prefix :: "ctype \<Rightarrow> string" where
  "dict_prefix T =
     ''{'descr': '' @ [quote, BigEndianTest, map_type T] @ to_string (sizeof T)
       @ ''', 'fortran_order': False, 'shape': (''"

definition dict_dims :: "size_t list \<Rightarrow> string" where
  "dict_dims rest = concat (map (\<lambda>s. '', '' @ to_string (unat s)) rest)"

section \<open>Input streams\<close>

text \<open>An input stream over the bytes of a file or of a buffer: the read position, the
  fail state and the count of the last read. \<open>read\<close> on a stream that has failed reads
  nothing; a read that meets the end of the data returns the bytes there are and sets
  the fail state. The caller's buffer keeps its old contents past the bytes read.\<close>

record istream =
  content :: "byte list"
  rpos :: nat
  failbit :: bool
  gcount :: nat

definition open_stream :: "byte list \<Rightarrow> istream" where
  "open_stream bs = \<lparr>content = bs, rpos = 0, failbit = False, gcount = 0\<rparr>"

definition is_read :: "istream \<Rightarrow> nat \<Rightarrow> byte list \<times> istream" where
  "is_read s n =
     (if failbit s then ([], s\<lparr>gcount := 0\<rparr>)
      else let got = take n (drop (rpos s) (content s))
           in (got, s\<lparr>rpos := rpos s + length got, failbit := (length got < n),
                       gcount := length got\<rparr>))"

definition store :: "byte list \<Rightarrow> byte list \<Rightarrow> byte list" where
  "store dst got = got @ drop (length got) dst"

text \<open>A stream that has not failed and has the bytes \<open>bs\<close> before it.\<close>

definition at :: "istream \<Rightarrow> byte list \<Rightarrow> bool" where
  "at s bs = (\<not> failbit s \<and> drop (rpos s) (content s) = bs)"

section \<open>Strings of the standard library\<close>

text \<open>\<open>std::string::find\<close>: the first position at which the pattern stands, or
  \<open>npos\<close> (\<open>None\<close>).\<close>

fun str_find :: "string \<Rightarrow> string \<Rightarrow> nat option" where
  "str_find [] pat = (if pat = [] then Some 0 else None)"
| "str_find (c # cs) pat =
     (if take (length pat) (c # cs) = pat then Some 0
      else map_option Suc (str_find cs pat))"

text \<open>\<open>std::string::substr(pos, count)\<close> raises \<open>std::out_of_range\<close> when \<open>pos\<close>
  lies past the end; \<open>substr(pos)\<close> runs to the end of the string.\<close>

definition substr :: "string \<Rightarrow> nat \<Rightarrow> nat \<Rightarrow> error + string" where
  "substr s pos count = (if pos > length s then Inl Std_Out_Of_Range else Inr (take count (drop pos s)))"

definition substr_from :: "string \<Rightarrow> nat \<Rightarrow> error + string" where
  "substr_from s pos = (if pos > length s then Inl Std_Out_Of_Range else Inr (drop pos s))"

definition is_digit :: "char \<Rightarrow> bool" where
  "is_digit c = (c \<in> set ''0123456789'')"

definition digit_val :: "char \<Rightarrow> nat" where
  "digit_val c = of_char c - 48"

definition decimal :: "string \<Rightarrow> nat" where
  "decimal ds = foldl (\<lambda>a c. 10 * a + digit_val c) 0 ds"

definition isspace :: "char \<Rightarrow> bool" where
  "isspace c = (c \<in> set [CHR 0x20, CHR 0x09, CHR 0x0A, CHR 0x0B, CHR 0x0C, CHR 0x0D])"

text \<open>\<open>std::stoul\<close> in base 10 (\<open>strtoul\<close>): leading white space, an optional sign, the
  longest run of digits; \<open>std::invalid_argument\<close> when there is no digit,
  \<open>std::out_of_range\<close> when the digits exceed \<open>ULONG_MAX\<close>; a minus sign negates in
  \<open>unsigned long\<close>.\<close>

definition stoul :: "string \<Rightarrow> error + nat" where
  "stoul s =
     (let s1 = dropWhile isspace s;
          neg = (s1 \<noteq> [] \<and> hd s1 = CHR ''-'');
          s2 = (if s1 \<noteq> [] \<and> (hd s1 = CHR ''-'' \<or> hd s1 = CHR ''+'') then tl s1 else s1);
          ds = takeWhile is_digit s2
      in if ds = [] then Inl Std_Invalid_Argument
         else if decimal ds > 2 ^ 64 - 1 then Inl Std_Out_Of_Range
         else Inr (if neg then (2 ^ 64 - decimal ds) mod 2 ^ 64 else decimal ds))"

text \<open>\<open>std::regex_search\<close> with the pattern \<open>[0-9]+\<close>: the leftmost, longest run of
  digits and the text after it.\<close>

definition regex_search_num :: "string \<Rightarrow> (string \<times> string) option" where
  "regex_search_num str =
     (let rest = dropWhile (\<lambda>c. \<not> is_digit c) str
      in if rest = [] then None else Some (takeWhile is_digit rest, dropWhile is_digit rest))"

section \<open>Parsing the header of an array file\<close>

definition parse_fortran_order :: "string \<Rightarrow> error + bool" where
  "parse_fortran_order header =
     (case str_find header ''fortran_order'' of
        None \<Rightarrow> Inl Missing_Fortran_Order
      | Some loc1 \<Rightarrow>
          (case substr header (loc1 + 16) 4 of
             Inl e \<Rightarrow> Inl e
           | Inr t \<Rightarrow> Inr (t = ''True'')))"

text \<open>The loop over the matches of the regular expression: each match is converted by
  \<open>stoul\<close> and pushed onto the shape, and the search goes on in the suffix.\<close>

function shape_loop :: "string \<Rightarrow> error + size_t list" where
  "shape_loop str_shape =
     (case regex_search_num str_shape of
        None \<Rightarrow> Inr []
      | Some (m, suffix) \<Rightarrow>
          (case stoul m of
             Inl e \<Rightarrow> Inl e
           | Inr v \<Rightarrow>
               (case shape_loop suffix of
                  Inl e \<Rightarrow> Inl e
                | Inr vs \<Rightarrow> Inr (word_of_nat v # vs))))"
  by pat_completeness auto
termination
proof (relation "measure length")
  show "wf (measure length)" by simp
next
  fix str_shape :: string and x2 x y
  assume a: "regex_search_num str_shape = Some x2" and b: "(x, y) = x2"
  let ?rest = "dropWhile (\<lambda>c. \<not> is_digit c) str_shape"
  from a b have ne: "?rest \<noteq> []" and y: "y = dropWhile is_digit ?rest"
    by (auto simp: regex_search_num_def Let_def split: if_splits)
  from ne have "is_digit (hd ?rest)"
    using hd_dropWhile [of "\<lambda>c. \<not> is_digit c" str_shape] by simp
  with ne have "length (dropWhile is_digit ?rest) < length ?rest"
    by (cases ?rest) (auto intro: le_imp_less_Suc length_dropWhile_le)
  moreover have "length ?rest \<le> length str_shape"
    by (rule length_dropWhile_le)
  ultimately show "(y, str_shape) \<in> measure length"
    using y by simp
qed

declare shape_loop.simps [simp del]

text \<open>\<open>loc2 - loc1 - 1\<close> is computed in \<open>size_t\<close>: it wraps around when the first
  \<open>)\<close> stands before the first \<open>(\<close>.\<close>

definition parse_shape :: "string \<Rightarrow> error + size_t list" where
  "parse_shape header =
     (case str_find header ''('' of
        None \<Rightarrow> Inl Missing_Paren
      | Some loc1 \<Rightarrow>
          (case str_find header '')'' of
             None \<Rightarrow> Inl Missing_Paren
           | Some loc2 \<Rightarrow>
               (case substr header (loc1 + 1) (nat ((int loc2 - int loc1 - 1) mod 2 ^ 64)) of
                  Inl e \<Rightarrow> Inl e
                | Inr str_shape \<Rightarrow> shape_loop str_shape)))"

text \<open>\<open>header[loc1]\<close> at the end of the string is the terminating zero, and is
  undefined beyond it.\<close>

definition parse_word_size :: "string \<Rightarrow> error + size_t" where
  "parse_word_size header =
     (case str_find header ''descr'' of
        None \<Rightarrow> Inl Missing_Descr
      | Some loc \<Rightarrow>
          let loc1 = loc + 9 in
          if loc1 > length header then Inl Undefined_Behaviour
          else
            let c = (if loc1 < length header then header ! loc1 else CHR 0x00) in
            if \<not> (c = CHR ''<'' \<or> c = CHR ''|'') then Inl Endian_Check_Failed
            else
              (case substr_from header (loc1 + 2) of
                 Inl e \<Rightarrow> Inl e
               | Inr str_ws \<Rightarrow>
                   (case stoul (case str_find str_ws [quote] of
                                  None \<Rightarrow> str_ws
                                | Some loc2 \<Rightarrow> take loc2 str_ws) of
                      Inl e \<Rightarrow> Inl e
                    | Inr v \<Rightarrow> Inr (word_of_nat v))))"

definition parse_header_text :: "string \<Rightarrow> error + (size_t \<times> size_t list \<times> bool)" where
  "parse_header_text header =
     (case parse_fortran_order header of
        Inl e \<Rightarrow> Inl e
      | Inr fo \<Rightarrow>
          (case parse_shape header of
             Inl e \<Rightarrow> Inl e
           | Inr shp \<Rightarrow>
               (case parse_word_size header of
                  Inl e \<Rightarrow> Inl e
                | Inr ws \<Rightarrow> Inr (ws, shp, fo))))"

text \<open>The part of \<open>parse_npy_header\<close> after the length field: the state of the stream
  is tested, the text is read and must end in a newline. With a length of zero the test
  reads \<open>header[size() - 1]\<close> of an empty string.\<close>

definition read_header_text ::
  "nat \<Rightarrow> istream \<Rightarrow> error + ((size_t \<times> size_t list \<times> bool) \<times> istream)" where
  "read_header_text header_length s =
     (if failbit s then Inl Cannot_Read_Header_Length
      else
        (case is_read s header_length of
           (got, s') \<Rightarrow>
             let header = store (replicate header_length (CHR 0x00)) got in
             if failbit s' \<or> gcount s' \<noteq> length header then Inl Failed_To_Read_Header
             else if header = [] then Inl Undefined_Behaviour
             else if header ! (length header - 1) \<noteq> newline then Inl Failed_To_Read_Header
             else
               (case parse_header_text header of
                  Inl e \<Rightarrow> Inl e
                | Inr r \<Rightarrow> Inr (r, s'))))"

text \<open>\<open>major\<close>, \<open>minor\<close> and \<open>header_length\<close> start at zero, and a read that fails
  leaves them as they are.\<close>

definition parse_npy_header ::
  "istream \<Rightarrow> error + ((size_t \<times> size_t list \<times> bool) \<times> istream)" where
  "parse_npy_header s0 =
     (case is_read s0 numpy_magic_length of
        (got, s1) \<Rightarrow>
          if store (replicate numpy_magic_length (CHR 0x00)) got \<noteq> numpy_magic
          then Inl Not_A_Numpy_File
          else
            (case is_read s1 1 of
               (got_major, s2) \<Rightarrow>
                 (case is_read s2 1 of
                    (got_minor, s3) \<Rightarrow>
                      let major = le_val (store [CHR 0x00] got_major);
                          minor = le_val (store [CHR 0x00] got_minor)
                      in
                        if major = 1 \<and> minor = 0 then
                          (case is_read s3 2 of
                             (got_len, s4) \<Rightarrow>
                               read_header_text (le_val (store (le_bytes 4 0) got_len)) s4)
                        else if major = 2 \<and> minor = 0 then
                          (case is_read s3 4 of
                             (got_len, s4) \<Rightarrow>
                               read_header_text (le_val (store (le_bytes 4 0) got_len)) s4)
                        else Inl (Version_Not_Supported major minor))))"

text \<open>What the parser needs of the text up to the shape: the three tokens are found in
  it, with the values they are followed by.\<close>

definition prefix_ok :: "string \<Rightarrow> nat \<Rightarrow> bool" where
  "prefix_ok P sz =
     (parse_fortran_order P = Inr False
      \<and> (case str_find P ''fortran_order'' of None \<Rightarrow> False | Some i \<Rightarrow> i + 20 \<le> length P)
      \<and> P \<noteq> [] \<and> str_find P ''('' = Some (length P - 1) \<and> CHR '')'' \<notin> set P
      \<and> parse_word_size P = Inr (word_of_nat sz)
      \<and> (case str_find P ''descr'' of
           None \<Rightarrow> False
         | Some l \<Rightarrow> l + 11 \<le> length P
             \<and> str_find (drop (l + 11) P) [quote] \<noteq> None))"

text \<open>The length field holds the length of the text: the cast to 16 or 32 bits does
  not cut it.\<close>

definition header_fits :: "string \<Rightarrow> bool" where
  "header_fits dict = (length (padded dict) < (if big_header dict then 2 ^ 32 else 2 ^ 16))"

section \<open>Arrays\<close>

record NpyArray =
  data_holder :: "byte list"
  shape :: "size_t list"
  word_size :: size_t
  fortran_order :: bool
  num_vals :: size_t

text \<open>The constructor: the product of the dimensions and the size of the buffer are
  computed in \<open>size_t\<close>.\<close>

definition NpyArray_new :: "size_t list \<Rightarrow> size_t \<Rightarrow> bool \<Rightarrow> NpyArray" where
  "NpyArray_new shp ws fo =
     (let nv = foldl (\<lambda>a d. a * d) 1 shp
      in \<lparr>data_holder = replicate (unat (nv * ws)) (CHR 0x00), shape = shp, word_size = ws,
          fortran_order = fo, num_vals = nv\<rparr>)"

definition num_bytes :: "NpyArray \<Rightarrow> nat" where
  "num_bytes a = length (data_holder a)"

section \<open>Loading an array file\<close>

definition load_the_npy_file :: "istream \<Rightarrow> error + (NpyArray \<times> istream)" where
  "load_the_npy_file s0 =
     (if failbit s0 then Inl File_Is_Not_Open
      else
        (case parse_npy_header s0 of
           Inl e \<Rightarrow> Inl e
         | Inr ((ws, shp, fo), s1) \<Rightarrow>
             let arr = NpyArray_new shp ws fo in
             (case is_read s1 (num_bytes arr) of
                (got, s2) \<Rightarrow>
                  if failbit s2 \<or> gcount s2 \<noteq> num_bytes arr then Inl Failed_Fread
                  else Inr (arr\<lparr>data_holder := store (data_holder arr) got\<rparr>, s2))))"

text \<open>A path names a file that exists, with its bytes, or no file.\<close>

definition npy_load :: "byte list option \<Rightarrow> error + NpyArray" where
  "npy_load file =
     (case file of
        None \<Rightarrow> Inl File_Does_Not_Exist
      | Some bytes \<Rightarrow>
          (case load_the_npy_file (open_stream bytes) of
             Inl e \<Rightarrow> Inl e
           | Inr (arr, s) \<Rightarrow> Inr arr))"

section \<open>Saving an array file\<close>

text \<open>Writing at a position of an output file overwrites the bytes that stand there
  and extends the file past its end.\<close>

definition write_at :: "byte list \<Rightarrow> nat \<Rightarrow> byte list \<Rightarrow> byte list" where
  "write_at f pos bytes =
     take pos f @ replicate (pos - length f) (CHR 0x00) @ bytes @ drop (pos + length bytes) f"

text \<open>The append branch of \<open>npy_save\<close>: the checks on the header of the file that
  exists, and the shape of the file that results.\<close>

definition append_shape :: "ctype \<Rightarrow> byte list \<Rightarrow> size_t list \<Rightarrow> error + size_t list" where
  "append_shape T old shp =
     (case parse_npy_header (open_stream old) of
        Inl e \<Rightarrow> Inl e
      | Inr ((ws, ds, fo), s) \<Rightarrow>
          if \<not> fo then Inl Append_Fortran_Order
          else if ws \<noteq> word_of_nat (sizeof T)
            then Inl (Append_Wrong_Word_Size (sizeof T) (unat ws))
          else if length ds \<noteq> length shp
            then Inl (Append_Wrong_Shape (length shp) (length ds))
          else
            (case find (\<lambda>i. shp ! i \<noteq> ds ! i) [1..<length shp] of
               Some i \<Rightarrow> Inl (Append_Wrong_Dimension (unat (shp ! i)) (unat (ds ! i)))
             | None \<Rightarrow>
                 if ds = [] then Inl Undefined_Behaviour
                 else Inr (ds[0 := ds ! 0 + shp ! 0])))"

text \<open>\<open>data\<close> is the memory at the pointer of the caller; \<open>sizeof(T) * nels\<close> bytes of
  it are written, and reading past its end is undefined.\<close>

definition npy_save ::
  "ctype \<Rightarrow> byte list option \<Rightarrow> byte list \<Rightarrow> size_t list \<Rightarrow> string \<Rightarrow> error + byte list" where
  "npy_save T file data shp mode =
     (case (if file \<noteq> None \<and> mode = ''a''
            then (case append_shape T (the file) shp of
                    Inl e \<Rightarrow> Inl e
                  | Inr t \<Rightarrow> Inr (t, the file))
            else Inr (shp, [])) of
        Inl e \<Rightarrow> Inl e
      | Inr (true_data_shape, contents) \<Rightarrow>
          (case create_npy_header T true_data_shape of
             Inl e \<Rightarrow> Inl e
           | Inr header \<Rightarrow>
               let nels = foldl (\<lambda>a d. a * d) 1 shp;
                   n = unat (word_of_nat (sizeof T) * nels)
               in if length data < n then Inl Undefined_Behaviour
                  else Inr (write_at contents 0 header @ take n data)))"

section \<open>Archives: the records of the zip format\<close>

text \<open>\<open>parse_zip_footer\<close> seeks to 22 bytes before the end of the file and reads the
  locator; on a file shorter than that the seek fails and so does the read.\<close>

definition parse_zip_footer :: "byte list \<Rightarrow> error + (nat \<times> nat \<times> nat)" where
  "parse_zip_footer file =
     (if length file < zip_footer_length then Inl Failed_Reading_Footer
      else
        let footer = drop (length file - zip_footer_length) file;
            disk_no = le_val (take 2 (drop 4 footer));
            disk_start = le_val (take 2 (drop 6 footer));
            nrecs_on_disk = le_val (take 2 (drop 8 footer));
            nrecs = le_val (take 2 (drop 10 footer));
            global_header_size = le_val (take 4 (drop 12 footer));
            global_header_offset = le_val (take 4 (drop 16 footer));
            comment_len = le_val (take 2 (drop 20 footer))
        in if disk_no \<noteq> 0 \<or> disk_start \<noteq> 0 \<or> nrecs_on_disk \<noteq> nrecs \<or> comment_len \<noteq> 0
           then Inl Unexpected_EOCD
           else Inr (nrecs, global_header_size, global_header_offset))"

text \<open>The three records that \<open>npz_save\<close> builds. The casts to \<open>uint16_t\<close> and
  \<open>uint32_t\<close> are written out.\<close>

definition npz_local_header :: "32 word \<Rightarrow> nat \<Rightarrow> string \<Rightarrow> byte list" where
  "npz_local_header crc nbytes key =
     ''PK''
     @ le_bytes 2 0x0403
     @ le_bytes 2 20
     @ le_bytes 2 0
     @ le_bytes 2 0
     @ le_bytes 2 0
     @ le_bytes 2 0
     @ le_bytes 4 (unat crc)
     @ le_bytes 4 (nbytes mod 2 ^ 32)
     @ le_bytes 4 (nbytes mod 2 ^ 32)
     @ le_bytes 2 (length key mod 2 ^ 16)
     @ le_bytes 2 0
     @ key"

definition npz_global_record :: "byte list \<Rightarrow> nat \<Rightarrow> string \<Rightarrow> byte list" where
  "npz_global_record local_header global_header_offset key =
     ''PK''
     @ le_bytes 2 0x0201
     @ le_bytes 2 20
     @ take 26 (drop 4 local_header)
     @ le_bytes 2 0
     @ le_bytes 2 0
     @ le_bytes 2 0
     @ le_bytes 4 0
     @ le_bytes 4 (global_header_offset mod 2 ^ 32)
     @ key"

definition npz_footer :: "nat \<Rightarrow> nat \<Rightarrow> nat \<Rightarrow> byte list" where
  "npz_footer nrecs global_header_size new_offset =
     ''PK''
     @ le_bytes 2 0x0605
     @ le_bytes 2 0
     @ le_bytes 2 0
     @ le_bytes 2 ((nrecs + 1) mod 2 ^ 16)
     @ le_bytes 2 ((nrecs + 1) mod 2 ^ 16)
     @ le_bytes 4 (global_header_size mod 2 ^ 32)
     @ le_bytes 4 (new_offset mod 2 ^ 32)
     @ le_bytes 2 0"

section \<open>Saving into an archive\<close>

text \<open>The append branch of \<open>npz_save\<close>: the locator of the archive that exists gives the
  number of records and the place of the central directory, which is read into memory;
  the write position goes back to where the directory began.\<close>

definition npz_open_append :: "byte list \<Rightarrow> error + (nat \<times> nat \<times> byte list)" where
  "npz_open_append file =
     (case parse_zip_footer file of
        Inl e \<Rightarrow> Inl e
      | Inr (nrecs, global_header_size, global_header_offset) \<Rightarrow>
          let global_header = take global_header_size (drop global_header_offset file)
          in if length global_header \<noteq> global_header_size then Inl Header_Read_Error
             else Inr (nrecs, global_header_offset, global_header))"

text \<open>\<open>crc32\<close> is the checksum function of zlib, a parameter of the model.\<close>

definition npz_save ::
  "(32 word \<Rightarrow> byte list \<Rightarrow> 32 word) \<Rightarrow> ctype \<Rightarrow> byte list option \<Rightarrow> string \<Rightarrow> byte list
     \<Rightarrow> size_t list \<Rightarrow> string \<Rightarrow> error + byte list" where
  "npz_save crc32 T zipfile key0 data shp mode =
     (let key = key0 @ ''.npy'' in
      case (if zipfile \<noteq> None \<and> mode = ''a''
            then (case npz_open_append (the zipfile) of
                    Inl e \<Rightarrow> Inl e
                  | Inr (nrecs, global_header_offset, global_header) \<Rightarrow>
                      Inr (nrecs, global_header_offset, global_header, the zipfile))
            else Inr (0, 0, [], [])) of
        Inl e \<Rightarrow> Inl e
      | Inr (nrecs, global_header_offset, global_header, contents) \<Rightarrow>
          (case create_npy_header T shp of
             Inl e \<Rightarrow> Inl e
           | Inr npy_header \<Rightarrow>
               let nels = foldl (\<lambda>a d. a * d) 1 shp;
                   n = unat (nels * word_of_nat (sizeof T));
                   nbytes = (n + length npy_header) mod 2 ^ 64
               in if length data < n then Inl Undefined_Behaviour
                  else
                    let crc = crc32 0 (take (length npy_header mod 2 ^ 32) npy_header);
                        crc = crc32 crc (take (n mod 2 ^ 32) data);
                        local_header = npz_local_header crc nbytes key;
                        global_header =
                          global_header @ npz_global_record local_header global_header_offset key;
                        footer = npz_footer nrecs (length global_header)
                                   (global_header_offset + nbytes + length local_header)
                    in Inr (write_at contents global_header_offset
                              (local_header @ npy_header @ take n data @ global_header @ footer))))"

section \<open>Loading an archive\<close>

text \<open>The inflation of zlib is a parameter of the model: from the compressed bytes and
  the size of the output buffer it gives the status of \<open>inflateInit2\<close>, of \<open>inflate\<close> and
  of \<open>inflateEnd\<close>, and the bytes written to the buffer.\<close>

record zlib_result =
  init_status :: int
  inflate_status :: int
  end_status :: int
  inflated :: "byte list"

type_synonym zlib = "byte list \<Rightarrow> nat \<Rightarrow> zlib_result"

definition Z_OK :: int where
  "Z_OK = 0"

text \<open>The other answers of \<open>inflate\<close> that \<open>zlib.h\<close> names. Called with \<open>Z_FINISH\<close>,
  \<open>inflate\<close> answers \<open>Z_STREAM_END\<close> when it has written all the output, and an error
  otherwise, \<open>Z_BUF_ERROR\<close> when the output buffer is too small; it does not answer
  \<open>Z_OK\<close>.\<close>

definition Z_STREAM_END :: int where
  "Z_STREAM_END = 1"

definition Z_BUF_ERROR :: int where
  "Z_BUF_ERROR = - 5"

text \<open>\<open>offset\<close> is computed in \<open>size_t\<close>; when the array is larger than the buffer it
  wraps around and \<open>memcpy\<close> reads outside the buffer.\<close>

definition load_the_npz_array ::
  "zlib \<Rightarrow> istream \<Rightarrow> nat \<Rightarrow> nat \<Rightarrow> error + (NpyArray \<times> istream)" where
  "load_the_npz_array zl s compr_bytes uncompr_bytes =
     (case is_read s compr_bytes of
        (got, s1) \<Rightarrow>
          if failbit s1 \<or> gcount s1 \<noteq> compr_bytes then Inl Failed_Reading_Compressed
          else
            let buffer_compr = store (replicate compr_bytes (CHR 0x00)) got;
                r = zl buffer_compr uncompr_bytes
            in if init_status r \<noteq> Z_OK then Inl Failed_Initializing_Compression
               else if inflate_status r \<noteq> Z_OK then Inl Failed_Inflating
               else if end_status r \<noteq> Z_OK then Inl Failed_Finalizing_Inflation
               else
                 let buffer_uncompr =
                       store (replicate uncompr_bytes (CHR 0x00)) (take uncompr_bytes (inflated r))
                 in (case parse_npy_header (open_stream buffer_uncompr) of
                       Inl e \<Rightarrow> Inl e
                     | Inr ((ws, shp, fo), hs) \<Rightarrow>
                         let array = NpyArray_new shp ws fo in
                         if num_bytes array > uncompr_bytes then Inl Undefined_Behaviour
                         else
                           let offset = uncompr_bytes - num_bytes array
                           in Inr (array\<lparr>data_holder :=
                                      take (num_bytes array) (drop offset buffer_uncompr)\<rparr>, s1)))"

text \<open>The body of the loop of \<open>npz_load\<close> for a block that is taken for a local file
  header: the name, the extra field and the array.\<close>

definition npz_entry ::
  "zlib \<Rightarrow> byte list \<Rightarrow> istream \<Rightarrow> error + (string \<times> NpyArray \<times> istream)" where
  "npz_entry zl local_header s =
     (let name_len = le_val (take 2 (drop 26 local_header)) in
      case is_read s name_len of
        (got, s1) \<Rightarrow>
          if failbit s1 \<or> gcount s1 \<noteq> name_len then Inl Failed_Reading_Variable_Name
          else
            let varname = store (replicate name_len space) got;
                varname = (if length varname \<ge> 4 then take (length varname - 4) varname
                           else varname);
                extra_field_len = le_val (take 2 (drop 28 local_header))
            in
              (case (if extra_field_len > 0
                     then (case is_read s1 extra_field_len of
                             (buff, s2) \<Rightarrow>
                               if failbit s2 \<or> gcount s2 \<noteq> extra_field_len
                               then Inl Failed_Reading_Extra_Field else Inr s2)
                     else Inr s1) of
                 Inl e \<Rightarrow> Inl e
               | Inr s2 \<Rightarrow>
                   let compr_method = le_val (take 2 (drop 8 local_header));
                       compr_bytes = le_val (take 4 (drop 18 local_header));
                       uncompr_bytes = le_val (take 4 (drop 22 local_header))
                   in
                     (case (if compr_method = 0 then load_the_npy_file s2
                            else load_the_npz_array zl s2 compr_bytes uncompr_bytes) of
                        Inl e \<Rightarrow> Inl e
                      | Inr (arr, s3) \<Rightarrow> Inr (varname, arr, s3))))"

text \<open>Reading never moves a stream backwards and never changes what it reads from.\<close>

definition stream_le :: "istream \<Rightarrow> istream \<Rightarrow> bool" where
  "stream_le s s' = (content s' = content s \<and> rpos s \<le> rpos s')"

lemma stream_le_refl: "stream_le s s"
  by (simp add: stream_le_def)

lemma stream_le_trans: "stream_le a b \<Longrightarrow> stream_le b c \<Longrightarrow> stream_le a c"
  by (auto simp: stream_le_def)

lemma is_read_stream_le: "is_read s n = (got, s') \<Longrightarrow> stream_le s s'"
  by (auto simp: is_read_def stream_le_def Let_def split: if_splits)

lemma is_read_full:
  assumes "is_read s n = (got, s')" and "\<not> failbit s'" and "0 < n"
  shows "rpos s' = rpos s + n" and "rpos s' \<le> length (content s')"
  using assms
  by (auto simp: is_read_def Let_def min_def split: if_splits)

lemma read_header_text_stream_le:
  "read_header_text n s = Inr (r, s') \<Longrightarrow> stream_le s s'"
  by (auto simp: read_header_text_def Let_def split: if_splits prod.splits sum.splits
      dest: is_read_stream_le)

lemma parse_npy_header_stream_le:
  assumes "parse_npy_header s = Inr (r, s')"
  shows "stream_le s s'"
proof -
  obtain g1 s1 where r1: "is_read s numpy_magic_length = (g1, s1)" by force
  obtain g2 s2 where r2: "is_read s1 1 = (g2, s2)" by force
  obtain g3 s3 where r3: "is_read s2 1 = (g3, s3)" by force
  obtain g4 s4 where r4: "is_read s3 2 = (g4, s4)" by force
  obtain g5 s5 where r5: "is_read s3 4 = (g5, s5)" by force
  have le3: "stream_le s s3"
    using r1 r2 r3 by (blast intro: stream_le_trans dest: is_read_stream_le)
  from assms r1 r2 r3 r4 r5
  have "(\<exists>n. read_header_text n s4 = Inr (r, s')) \<or> (\<exists>n. read_header_text n s5 = Inr (r, s'))"
    by (auto simp: parse_npy_header_def Let_def split: if_splits)
  then show ?thesis
    using le3 r4 r5
    by (blast intro: stream_le_trans dest: is_read_stream_le read_header_text_stream_le)
qed

lemma load_the_npy_file_stream_le:
  "load_the_npy_file s = Inr (arr, s') \<Longrightarrow> stream_le s s'"
  by (auto simp: load_the_npy_file_def Let_def split: if_splits prod.splits sum.splits
      dest!: is_read_stream_le parse_npy_header_stream_le intro: stream_le_trans)

lemma load_the_npz_array_stream_le:
  "load_the_npz_array zl s c u = Inr (arr, s') \<Longrightarrow> stream_le s s'"
  by (auto simp: load_the_npz_array_def Let_def split: if_splits prod.splits sum.splits
      dest!: is_read_stream_le)

lemma npz_entry_stream_le:
  assumes "npz_entry zl local_header s = Inr (k, arr, s')"
  shows "stream_le s s'"
proof -
  let ?n = "le_val (take 2 (drop 26 local_header))"
  let ?x = "le_val (take 2 (drop 28 local_header))"
  obtain g1 s1 where r1: "is_read s ?n = (g1, s1)" by force
  obtain g2 s2 where r2: "is_read s1 ?x = (g2, s2)" by force
  from assms r1 r2 have "(\<exists>s3. (s3 = s1 \<or> s3 = s2) \<and>
       (load_the_npy_file s3 = Inr (arr, s') \<or> (\<exists>c u. load_the_npz_array zl s3 c u = Inr (arr, s'))))"
    by (auto simp: npz_entry_def Let_def split: if_splits sum.splits)
  then show ?thesis
    using r1 r2
    by (blast intro: stream_le_trans
        dest: is_read_stream_le load_the_npy_file_stream_le load_the_npz_array_stream_le)
qed

text \<open>The loop of \<open>npz_load\<close>: a block of 30 bytes is read; a short read is an error;
  a block whose third and fourth bytes are not 3 and 4 ends the loop; any other block
  is the local file header of an entry.\<close>

function npz_load_loop ::
  "zlib \<Rightarrow> istream \<Rightarrow> (string \<rightharpoonup> NpyArray) \<Rightarrow> error + (string \<rightharpoonup> NpyArray)" where
  "npz_load_loop zl s arrays =
     (if failbit s then Inr arrays
      else
        (case is_read s zip_header_length of
           (got, s1) \<Rightarrow>
             let local_header = store (replicate zip_header_length (CHR 0x00)) got in
             if failbit s1 \<or> gcount s1 \<noteq> zip_header_length then Inl Failed_Reading_Header
             else if local_header ! 2 \<noteq> CHR 0x03 \<or> local_header ! 3 \<noteq> CHR 0x04
               then Inr arrays
             else
               (case npz_entry zl local_header s1 of
                  Inl e \<Rightarrow> Inl e
                | Inr (varname, arr, s2) \<Rightarrow> npz_load_loop zl s2 (arrays(varname \<mapsto> arr)))))"
  by pat_completeness auto
termination
proof (relation "measure (\<lambda>(zl, s, arrays). length (content s) - rpos s)")
  show "wf (measure (\<lambda>(zl, s, arrays). length (content s) - rpos s))" by simp
next
  fix zl :: zlib and s :: istream and arrays :: "string \<rightharpoonup> NpyArray"
    and x got s1 local_header r y varname z arr s2
  assume a: "\<not> failbit s" "(got, s1) = is_read s zip_header_length"
    and b: "\<not> (failbit s1 \<or> gcount s1 \<noteq> zip_header_length)"
    and e: "npz_entry zl local_header s1 = Inr y" "(varname, z) = y" "(arr, s2) = z"
  from a b have p1: "rpos s1 = rpos s + zip_header_length" "rpos s1 \<le> length (content s1)"
    and c1: "content s1 = content s"
    using is_read_full [of s zip_header_length got s1] is_read_stream_le [of s zip_header_length got s1]
    by (auto simp: stream_le_def zip_header_length_def)
  from e have "stream_le s1 s2"
    using npz_entry_stream_le [of zl local_header s1 varname arr s2] by auto
  with p1 c1 show "((zl, s2, arrays(varname \<mapsto> arr)), (zl, s, arrays))
      \<in> measure (\<lambda>(zl, s, arrays). length (content s) - rpos s)"
    by (auto simp: stream_le_def zip_header_length_def)
qed

declare npz_load_loop.simps [simp del]

definition npz_load :: "zlib \<Rightarrow> byte list option \<Rightarrow> error + (string \<rightharpoonup> NpyArray)" where
  "npz_load zl file =
     (case file of
        None \<Rightarrow> Inl File_Does_Not_Exist
      | Some bytes \<Rightarrow> npz_load_loop zl (open_stream bytes) Map.empty)"

section \<open>Example files\<close>

text \<open>The text of a header that declares one-byte integers in Fortran order and the
  shape (1, 3).\<close>

definition example_text :: string where
  "example_text = ''{'descr': '<i1', 'fortran_order': True, 'shape': (1, 3), }'' @ [newline]"

text \<open>An inflation for the examples: it copies its input, and answers as \<open>inflate\<close>
  does with \<open>Z_FINISH\<close>, \<open>Z_STREAM_END\<close> when the output buffer holds all of it.\<close>

definition zlib_stored :: zlib where
  "zlib_stored compressed avail_out =
     \<lparr>init_status = Z_OK,
      inflate_status = (if length compressed \<le> avail_out then Z_STREAM_END else Z_BUF_ERROR),
      end_status = Z_OK,
      inflated = take avail_out compressed\<rparr>"

text \<open>An array file with that header and the three bytes of its payload.\<close>

definition example_file :: "byte list" where
  "example_file = numpy_magic @ [CHR 0x01, CHR 0x00] @ le_bytes 2 (length example_text)
     @ example_text @ ''abc''"

text \<open>The array that \<open>example_file\<close> holds, an archive entry that stores the file under
  a name, and a block of 30 bytes that begins a central directory.\<close>

definition example_array :: NpyArray where
  "example_array = \<lparr>data_holder = ''abc'', shape = [1, 3], word_size = 1,
     fortran_order = True, num_vals = 3\<rparr>"

definition example_entry :: "string \<Rightarrow> byte list" where
  "example_entry name = npz_local_header 0 72 name @ example_file"

definition example_directory_block :: "byte list" where
  "example_directory_block = ''PK'' @ [CHR 0x01, CHR 0x02] @ replicate 26 (CHR 0x00)"

text \<open>A stand-in for the checksum of zlib.\<close>

definition example_crc32 :: "32 word \<Rightarrow> byte list \<Rightarrow> 32 word" where
  "example_crc32 crc bytes = crc + word_of_nat (length bytes)"

text \<open>The archive with no entry: a locator and nothing else.\<close>

definition example_empty_archive :: "byte list" where
  "example_empty_archive = ''PK'' @ [CHR 0x05, CHR 0x06] @ replicate 18 (CHR 0x00)"

text \<open>An archive of 65535 entries with empty names and no data, its directory of
  65535 records, and its locator.\<close>

definition example_full_archive :: "byte list" where
  "example_full_archive =
     concat (replicate 65535 (npz_local_header 0 0 []))
     @ concat (replicate 65535 (npz_global_record (npz_local_header 0 0 []) 0 []))
     @ npz_footer 65534 (65535 * 46) (65535 * 30)"

text \<open>An archive made of the bytes of its entries, the bytes of its directory and a
  locator that gives the number of records, the size of the directory and its offset.\<close>

definition archive_inv :: "byte list \<Rightarrow> nat \<Rightarrow> byte list \<Rightarrow> byte list \<Rightarrow> bool" where
  "archive_inv file nrecs entries directory =
     (take (length entries) file = entries
      \<and> take (length directory) (drop (length entries) file) = directory
      \<and> length file = length entries + length directory + zip_footer_length
      \<and> parse_zip_footer file = Inr (nrecs, length directory, length entries))"

text \<open>A file in Fortran order of shape (1, 3) whose header takes 129 bytes, and the
  header of 129 bytes that \<open>create_npy_header\<close> builds for one-byte integers of
  shape (3, 3).\<close>

definition example_padded_text :: string where
  "example_padded_text = ''{'descr': '<i1', 'fortran_order': True, 'shape': (1, 3), }''
     @ replicate 60 space @ [newline]"

definition example_padded_file :: "byte list" where
  "example_padded_file = numpy_magic @ [CHR 0x01, CHR 0x00] @ le_bytes 2 119
     @ example_padded_text @ ''abc''"

definition example_grown_header :: "byte list" where
  "example_grown_header = numpy_magic @ [CHR 0x01, CHR 0x00] @ le_bytes 2 119
     @ ''{'descr': '<i1', 'fortran_order': False, 'shape': (3, 3), }''
     @ replicate 59 space @ [newline]"

text \<open>A file as numpy writes it: one-byte integers in Fortran order of shape (1, 3),
  a header of 128 bytes and the payload \<open>abc\<close>.\<close>

definition example_aligned_text :: string where
  "example_aligned_text = ''{'descr': '|i1', 'fortran_order': True, 'shape': (1, 3), }''
     @ replicate 59 space @ [newline]"

definition example_aligned_file :: "byte list" where
  "example_aligned_file = numpy_magic @ [CHR 0x01, CHR 0x00] @ le_bytes 2 118
     @ example_aligned_text @ ''abc''"

section \<open>Facts about the header that is built\<close>

lemma le_bytes_numeral [simp]:
  "le_bytes (numeral k) v = char_of (v mod 256) # le_bytes (pred_numeral k) (v div 256)"
  by (simp only: numeral_eq_Suc le_bytes.simps)

lemma le_bytes_Suc_0 [simp]: "le_bytes (Suc 0) v = [char_of v]"
  by simp

lemma length_le_bytes [simp]: "length (le_bytes n v) = n"
  by (induction n arbitrary: v) simp_all

lemma BigEndianTest_little: "BigEndianTest = CHR ''<''"
  by (simp add: BigEndianTest_def char_of_eq_iff)

lemma foldl_append_concat:
  "foldl (\<lambda>d s. d @ f s) d0 xs = d0 @ concat (map f xs)"
  by (induction xs arbitrary: d0) simp_all

lemma npy_dict_Nil: "npy_dict T [] = Inl Undefined_Behaviour"
  by (simp add: npy_dict_def)

lemma npy_dict_Cons:
  "npy_dict T (s0 # rest) =
     Inr (dict_prefix T @ to_string (unat s0) @ dict_dims rest
          @ (if rest = [] then '','' else []) @ ''), }'')"
proof -
  have "foldl (\<lambda>d s. d @ '', '' @ to_string (unat s)) d0 rest = d0 @ dict_dims rest" for d0
    unfolding dict_dims_def by (rule foldl_append_concat)
  then show ?thesis
    by (simp add: npy_dict_def dict_prefix_def)
qed

lemma remainder_pos: "0 < remainder d"
  by (simp add: remainder_def)

lemma length_padded: "length (padded d) = length d + remainder d"
  by (simp add: padded_def Let_def)

lemma padded_eq: "padded d = d @ replicate (remainder d - 1) space @ [newline]"
proof -
  obtain k where k: "remainder d = Suc k"
    using remainder_pos [of d] by (cases "remainder d") auto
  have "(d @ replicate k space @ [space])[length d + k := newline]
          = d @ replicate k space @ [newline]"
    by (simp add: list_update_append)
  then show ?thesis
    by (simp add: padded_def Let_def k replicate_append_same)
qed

lemma pad_aux: "m < 64 \<Longrightarrow> (64 * q + m + (64 - m)) mod 64 = (0::nat)"
proof -
  assume "m < 64"
  then have "64 * q + m + (64 - m) = 64 * (q + 1)" by simp
  then show ?thesis by (simp only: mod_mult_self1_is_0)
qed

lemma pad_to_64: "(a + (64 - a mod 64)) mod 64 = (0::nat)"
proof -
  have "(64 * (a div 64) + a mod 64 + (64 - a mod 64)) mod 64 = 0"
    by (rule pad_aux) simp
  then show ?thesis by simp
qed

text \<open>The padding is computed from the magic string, the length field, the dictionary
  and one more byte; the prefix that is written holds the two version bytes as well, and
  the newline takes the place of the last space. The prefix is therefore one byte longer
  than a multiple of 64, whatever the shape.\<close>

lemma prefix_length_mod_64:
  "(numpy_magic_length + 2 + (if big_header d then 4 else 2) + length (padded d)) mod 64 = 1"
proof -
  let ?a = "numpy_magic_length + (if big_header d then 4 else 2) + length d + 1"
  have "numpy_magic_length + 2 + (if big_header d then 4 else 2) + length (padded d)
      = (?a + (64 - ?a mod 64)) + 1"
    by (simp add: length_padded remainder_def)
  then show ?thesis
    by (simp only: mod_add_left_eq [symmetric, of "?a + (64 - ?a mod 64)"] pad_to_64) simp
qed

lemma create_npy_header_length:
  assumes "npy_dict T shp = Inr d"
  shows "\<exists>h. create_npy_header T shp = Inr h \<and>
     length h = numpy_magic_length + 2 + (if big_header d then 4 else 2) + length (padded d)"
  using assms
  by (simp add: create_npy_header_def Let_def numpy_magic_def numpy_magic_length_def)

lemma create_npy_header_length_mod_64:
  assumes "create_npy_header T shp = Inr h"
  shows "length h mod 64 = 1"
proof -
  from assms obtain d where d: "npy_dict T shp = Inr d"
    by (auto simp: create_npy_header_def split: sum.splits)
  from create_npy_header_length [OF d] assms
  have "length h = numpy_magic_length + 2 + (if big_header d then 4 else 2) + length (padded d)"
    by simp
  then show ?thesis
    by (simp only: prefix_length_mod_64)
qed

lemma npy_dict_Double_3_4:
  "npy_dict T_Double [3, 4] =
     Inr ''{'descr': '<f8', 'fortran_order': False, 'shape': (3, 4), }''"
  by (simp add: npy_dict_def BigEndianTest_little quote_def to_string.simps digit_char_def)

lemma padded_Double_3_4:
  "padded ''{'descr': '<f8', 'fortran_order': False, 'shape': (3, 4), }''
     = ''{'descr': '<f8', 'fortran_order': False, 'shape': (3, 4), }''
         @ replicate 59 space @ [newline]"
  by (simp add: padded_eq remainder_def big_header_def numpy_magic_length_def)

lemma create_npy_header_Double_3_4:
  "create_npy_header T_Double [3, 4] =
     Inr (numpy_magic @ [CHR 0x01, CHR 0x00, CHR 0x77, CHR 0x00]
          @ ''{'descr': '<f8', 'fortran_order': False, 'shape': (3, 4), }''
          @ replicate 59 space @ [newline])"
  by (simp add: create_npy_header_def npy_dict_Double_3_4 padded_Double_3_4 big_header_def
      char_of_eq_iff)

section \<open>Facts about reading\<close>

lemma le_val_append: "le_val (xs @ ys) = le_val xs + 256 ^ length xs * le_val ys"
  by (induction xs) (simp_all add: algebra_simps)

lemma le_val_zeros: "le_val (replicate k (CHR 0x00)) = 0"
  by (induction k) simp_all

lemma le_bytes_zero: "le_bytes k 0 = replicate k (CHR 0x00)"
  by (induction k) (simp_all add: char_of_eq_iff)

lemma le_val_le_bytes: "le_val (le_bytes k v) = v mod 256 ^ k"
proof (induction k arbitrary: v)
  case 0
  then show ?case by simp
next
  case (Suc k)
  have "v mod 256 + 256 * (v div 256 mod 256 ^ k) = v mod (256 * 256 ^ k)"
    by (simp add: mod_mult2_eq)
  with Suc show ?case by simp
qed

lemma le_val_store_2:
  "length got = 2 \<Longrightarrow> le_val (store (le_bytes 4 0) got) = le_val got"
  by (simp add: store_def le_val_append char_of_eq_iff)

lemma le_val_store_4:
  "length got = 4 \<Longrightarrow> le_val (store (le_bytes 4 0) got) = le_val got"
  by (simp add: store_def)

lemma le_val_store_1: "le_val (store [CHR 0x00] [c]) = of_char c"
  by (simp add: store_def)

lemma at_open_stream: "at (open_stream bs) bs"
  by (simp add: at_def open_stream_def)

lemma is_read_at:
  assumes "at s (x @ y)" and "length x = n"
  shows "\<exists>s'. is_read s n = (x, s') \<and> at s' y \<and> gcount s' = n
           \<and> content s' = content s \<and> rpos s' = rpos s + n"
proof -
  from assms have d: "drop (rpos s) (content s) = x @ y" and f: "\<not> failbit s"
    by (simp_all add: at_def)
  have "drop (rpos s + n) (content s) = y"
    using d assms(2) by (metis add.commute append_eq_conv_conj drop_drop)
  with d f assms(2) show ?thesis
    by (simp add: is_read_def at_def Let_def)
qed

lemma is_read_at_short:
  assumes "at s x" and "length x < n"
  shows "\<exists>s'. is_read s n = (x, s') \<and> failbit s'"
  using assms by (simp add: is_read_def at_def Let_def)

lemma is_read_failed:
  assumes "failbit s"
  shows "\<exists>s'. is_read s n = ([], s') \<and> failbit s'"
  using assms by (simp add: is_read_def)

lemma read_header_text_at:
  assumes "at s (text @ rest)" and "length text = n" and "text \<noteq> []" and "last text = newline"
  shows "\<exists>s'. read_header_text n s =
            (case parse_header_text text of Inl e \<Rightarrow> Inl e | Inr r \<Rightarrow> Inr (r, s'))
          \<and> at s' rest \<and> content s' = content s \<and> rpos s' = rpos s + n"
proof -
  from is_read_at [OF assms(1,2)] obtain s' where
    r: "is_read s n = (text, s')" and a: "at s' rest" and g: "gcount s' = n"
    and c: "content s' = content s" and p: "rpos s' = rpos s + n"
    by blast
  have st: "store (replicate n (CHR 0x00)) text = text"
    using assms(2) by (simp add: store_def)
  have "text ! (length text - 1) = newline"
    using assms(3,4) by (simp add: last_conv_nth)
  with r a g st assms(1,2,3) have
    "read_header_text n s = (case parse_header_text text of Inl e \<Rightarrow> Inl e | Inr r \<Rightarrow> Inr (r, s'))"
    by (simp add: read_header_text_def at_def)
  with a c p show ?thesis by blast
qed

lemma read_header_text_no_newline:
  assumes "at s (text @ rest)" and "length text = n" and "text \<noteq> []" and "last text \<noteq> newline"
  shows "read_header_text n s = Inl Failed_To_Read_Header"
proof -
  from is_read_at [OF assms(1,2)] obtain s' where
    r: "is_read s n = (text, s')" and a: "at s' rest" and g: "gcount s' = n"
    by blast
  have st: "store (replicate n (CHR 0x00)) text = text"
    using assms(2) by (simp add: store_def)
  have "text ! (length text - 1) \<noteq> newline"
    using assms(3,4) by (simp add: last_conv_nth)
  with r a g st assms(1,2,3) show ?thesis
    by (simp add: read_header_text_def at_def)
qed

text \<open>What \<open>parse_npy_header\<close> reads before the length field.\<close>

lemma parse_npy_header_prefix:
  assumes "at s (numpy_magic @ [major, minor] @ bs)"
  shows "\<exists>s3. at s3 bs \<and> content s3 = content s \<and> rpos s3 = rpos s + 8 \<and>
     parse_npy_header s =
       (if of_char major = (1::nat) \<and> of_char minor = (0::nat) then
          (case is_read s3 2 of
             (got_len, s4) \<Rightarrow> read_header_text (le_val (store (le_bytes 4 0) got_len)) s4)
        else if of_char major = (2::nat) \<and> of_char minor = (0::nat) then
          (case is_read s3 4 of
             (got_len, s4) \<Rightarrow> read_header_text (le_val (store (le_bytes 4 0) got_len)) s4)
        else Inl (Version_Not_Supported (of_char major) (of_char minor)))"
proof -
  have l: "length numpy_magic = numpy_magic_length"
    by (simp add: numpy_magic_def numpy_magic_length_def)
  from is_read_at [OF assms l] obtain s1 where
    r1: "is_read s numpy_magic_length = (numpy_magic, s1)" and a1: "at s1 ([major] @ [minor] @ bs)"
    and c1: "content s1 = content s" and p1: "rpos s1 = rpos s + numpy_magic_length"
    by auto
  from is_read_at [OF a1, of 1] obtain s2 where
    r2: "is_read s1 (Suc 0) = ([major], s2)" and a2: "at s2 ([minor] @ bs)"
    and c2: "content s2 = content s1" and p2: "rpos s2 = rpos s1 + 1"
    by auto
  from is_read_at [OF a2, of 1] obtain s3 where
    r3: "is_read s2 (Suc 0) = ([minor], s3)" and a3: "at s3 bs"
    and c3: "content s3 = content s2" and p3: "rpos s3 = rpos s2 + 1"
    by auto
  have st: "store (replicate numpy_magic_length (CHR 0x00)) numpy_magic = numpy_magic"
    by (simp add: store_def l)
  have "parse_npy_header s =
       (if of_char major = (1::nat) \<and> of_char minor = (0::nat) then
          (case is_read s3 2 of
             (got_len, s4) \<Rightarrow> read_header_text (le_val (store (le_bytes 4 0) got_len)) s4)
        else if of_char major = (2::nat) \<and> of_char minor = (0::nat) then
          (case is_read s3 4 of
             (got_len, s4) \<Rightarrow> read_header_text (le_val (store (le_bytes 4 0) got_len)) s4)
        else Inl (Version_Not_Supported (of_char major) (of_char minor)))"
    by (simp add: parse_npy_header_def r1 r2 r3 st le_val_store_1 Let_def del: le_bytes_numeral)
  moreover have "rpos s3 = rpos s + 8"
    using p1 p2 p3 by (simp add: numpy_magic_length_def)
  ultimately show ?thesis
    using a3 c1 c2 c3 by auto
qed

lemma parse_npy_header_v1:
  assumes "at s (numpy_magic @ [CHR 0x01, CHR 0x00] @ le_bytes 2 n @ text @ rest)"
    and "length text = n" and "n < 2 ^ 16" and "text \<noteq> []" and "last text = newline"
  shows "\<exists>s'. parse_npy_header s =
            (case parse_header_text text of Inl e \<Rightarrow> Inl e | Inr r \<Rightarrow> Inr (r, s'))
          \<and> at s' rest \<and> content s' = content s \<and> rpos s' = rpos s + 10 + n"
proof -
  from parse_npy_header_prefix [OF assms(1)] obtain s3 where
    a3: "at s3 (le_bytes 2 n @ text @ rest)" and c3: "content s3 = content s"
    and p3: "rpos s3 = rpos s + 8"
    and eq: "parse_npy_header s =
       (case is_read s3 2 of
          (got_len, s4) \<Rightarrow> read_header_text (le_val (store (le_bytes 4 0) got_len)) s4)"
    by auto
  from is_read_at [OF a3, of 2] obtain s4 where
    r4: "is_read s3 2 = (le_bytes 2 n, s4)" and a4: "at s4 (text @ rest)"
    and c4: "content s4 = content s3" and p4: "rpos s4 = rpos s3 + 2"
    by auto
  have v: "le_val (store (le_bytes 4 0) (le_bytes 2 n)) = n"
    using assms(3) by (simp only: le_val_store_2 length_le_bytes le_val_le_bytes) simp
  from read_header_text_at [OF a4 assms(2,4,5)] obtain s' where
    "read_header_text n s4 =
       (case parse_header_text text of Inl e \<Rightarrow> Inl e | Inr r \<Rightarrow> Inr (r, s'))"
    and "at s' rest" and "content s' = content s4" and "rpos s' = rpos s4 + n"
    by blast
  with eq r4 v c3 c4 p3 p4 show ?thesis
    by auto
qed

lemma parse_npy_header_v2:
  assumes "at s (numpy_magic @ [CHR 0x02, CHR 0x00] @ le_bytes 4 n @ text @ rest)"
    and "length text = n" and "n < 2 ^ 32" and "text \<noteq> []" and "last text = newline"
  shows "\<exists>s'. parse_npy_header s =
            (case parse_header_text text of Inl e \<Rightarrow> Inl e | Inr r \<Rightarrow> Inr (r, s'))
          \<and> at s' rest \<and> content s' = content s \<and> rpos s' = rpos s + 12 + n"
proof -
  from parse_npy_header_prefix [OF assms(1)] obtain s3 where
    a3: "at s3 (le_bytes 4 n @ text @ rest)" and c3: "content s3 = content s"
    and p3: "rpos s3 = rpos s + 8"
    and eq: "parse_npy_header s =
       (case is_read s3 4 of
          (got_len, s4) \<Rightarrow> read_header_text (le_val (store (le_bytes 4 0) got_len)) s4)"
    by auto
  from is_read_at [OF a3, of 4] obtain s4 where
    r4: "is_read s3 4 = (le_bytes 4 n, s4)" and a4: "at s4 (text @ rest)"
    and c4: "content s4 = content s3" and p4: "rpos s4 = rpos s3 + 4"
    by auto
  have v: "le_val (store (le_bytes 4 0) (le_bytes 4 n)) = n"
    using assms(3) by (simp only: le_val_store_4 length_le_bytes le_val_le_bytes) simp
  from read_header_text_at [OF a4 assms(2,4,5)] obtain s' where
    "read_header_text n s4 =
       (case parse_header_text text of Inl e \<Rightarrow> Inl e | Inr r \<Rightarrow> Inr (r, s'))"
    and "at s' rest" and "content s' = content s4" and "rpos s' = rpos s4 + n"
    by blast
  with eq r4 v c3 c4 p3 p4 show ?thesis
    by auto
qed

text \<open>
  Claim C1. The header of \<open>create_npy_header\<close> should have a total prefix length
  (magic, version, length field, text) that is a multiple of 64. For a \<open>double\<close> array
  of shape (3, 4) the prefix is 129 bytes long: ten bytes of magic, version and length
  field and 119 bytes of text. 129 is not a multiple of 64.
\<close>

theorem create_npy_header_not_aligned:
  "\<exists>h. create_npy_header T_Double [3, 4] = Inr h \<and> length h = 129 \<and> length h mod 64 \<noteq> 0"
  by (simp add: create_npy_header_Double_3_4 numpy_magic_def)


lemma stoul_error: "stoul str = Inl e \<Longrightarrow> e = Std_Invalid_Argument \<or> e = Std_Out_Of_Range"
  by (auto simp: stoul_def Let_def split: if_splits)

lemma shape_loop_error:
  "shape_loop str = Inl e \<Longrightarrow> e = Std_Invalid_Argument \<or> e = Std_Out_Of_Range"
proof (induction str rule: shape_loop.induct)
  case (1 str_shape)
  show ?case
  proof (cases "regex_search_num str_shape")
    case None
    with "1.prems" show ?thesis by (simp add: shape_loop.simps)
  next
    case (Some ms)
    obtain m suffix where ms: "ms = (m, suffix)" by (cases ms)
    show ?thesis
    proof (cases "stoul m")
      case (Inl e')
      with "1.prems" Some ms have "e = e'" by (simp add: shape_loop.simps)
      with Inl show ?thesis by (auto dest: stoul_error)
    next
      case (Inr v)
      with "1.prems" Some ms have "shape_loop suffix = Inl e"
        by (simp add: shape_loop.simps split: sum.splits)
      with "1.IH" [OF Some ms [symmetric] Inr] show ?thesis by simp
    qed
  qed
qed

lemma parse_fortran_order_not_version:
  "parse_fortran_order text \<noteq> Inl (Version_Not_Supported a b)"
  by (simp add: parse_fortran_order_def substr_def split: option.splits sum.splits)

lemma parse_shape_not_version:
  "parse_shape text \<noteq> Inl (Version_Not_Supported a b)"
proof
  assume "parse_shape text = Inl (Version_Not_Supported a b)"
  then obtain str where "shape_loop str = Inl (Version_Not_Supported a b)"
    by (simp add: parse_shape_def substr_def split: option.splits if_splits sum.splits)
  then show False by (auto dest: shape_loop_error)
qed

lemma parse_word_size_not_version:
  "parse_word_size text \<noteq> Inl (Version_Not_Supported a b)"
proof
  assume "parse_word_size text = Inl (Version_Not_Supported a b)"
  then obtain str where "stoul str = Inl (Version_Not_Supported a b)"
    by (simp add: parse_word_size_def substr_from_def Let_def
          split: option.splits if_splits sum.splits)
  then show False by (auto dest: stoul_error)
qed

lemma parse_header_text_not_version:
  "parse_header_text text \<noteq> Inl (Version_Not_Supported a b)"
  using parse_fortran_order_not_version [of _ a b] parse_shape_not_version [of _ a b]
    parse_word_size_not_version [of _ a b]
  by (auto simp: parse_header_text_def split: sum.splits)

lemma read_header_text_not_version:
  "read_header_text n s \<noteq> Inl (Version_Not_Supported a b)"
proof
  assume "read_header_text n s = Inl (Version_Not_Supported a b)"
  then obtain t where "parse_header_text t = Inl (Version_Not_Supported a b)"
    by (simp add: read_header_text_def Let_def split: if_splits prod.splits sum.splits)
  then show False by (simp add: parse_header_text_not_version)
qed

lemma of_char_eq_nat_iff:
  "n < 256 \<Longrightarrow> (of_char c = (n::nat)) = (c = char_of n)"
proof
  assume "n < 256" and "of_char c = n"
  then have "char_of (of_char c :: nat) = char_of n" by simp
  then show "c = char_of n" by simp
next
  assume "n < 256" and "c = char_of n"
  then show "of_char c = n" by simp
qed

text \<open>
  Claim C9. On a stream that holds the magic string and the two version bytes,
  \<open>parse_npy_header\<close> fails with the error of an unsupported version exactly when the
  version is neither 1.0 nor 2.0, whatever follows the version bytes. With version 1.0
  the next two bytes are the length of the header text, low byte first, and with
  version 2.0 the next four bytes are; the text of that length is then parsed.
\<close>

theorem parse_npy_header_version:
  assumes "at s (numpy_magic @ [major, minor] @ bs)"
  shows "((\<exists>a b. parse_npy_header s = Inl (Version_Not_Supported a b)) \<longleftrightarrow>
            \<not> ((major = CHR 0x01 \<or> major = CHR 0x02) \<and> minor = CHR 0x00))
       \<and> (\<not> ((major = CHR 0x01 \<or> major = CHR 0x02) \<and> minor = CHR 0x00) \<longrightarrow>
            parse_npy_header s = Inl (Version_Not_Supported (of_char major) (of_char minor)))
       \<and> (\<forall>text rest. major = CHR 0x01 \<and> minor = CHR 0x00
              \<and> bs = le_bytes 2 (length text) @ text @ rest
              \<and> length text < 2 ^ 16 \<and> text \<noteq> [] \<and> last text = newline \<longrightarrow>
            (\<exists>s'. parse_npy_header s =
                     (case parse_header_text text of Inl e \<Rightarrow> Inl e | Inr r \<Rightarrow> Inr (r, s'))
                  \<and> at s' rest))
       \<and> (\<forall>text rest. major = CHR 0x02 \<and> minor = CHR 0x00
              \<and> bs = le_bytes 4 (length text) @ text @ rest
              \<and> length text < 2 ^ 32 \<and> text \<noteq> [] \<and> last text = newline \<longrightarrow>
            (\<exists>s'. parse_npy_header s =
                     (case parse_header_text text of Inl e \<Rightarrow> Inl e | Inr r \<Rightarrow> Inr (r, s'))
                  \<and> at s' rest))"
proof -
  let ?ok = "(major = CHR 0x01 \<or> major = CHR 0x02) \<and> minor = CHR 0x00"
  have c1: "(of_char major = (1::nat)) = (major = CHR 0x01)"
    and c2: "(of_char major = (2::nat)) = (major = CHR 0x02)"
    and c0: "(of_char minor = (0::nat)) = (minor = CHR 0x00)"
  proof -
    have "char_of (1::nat) = CHR 0x01" "char_of (2::nat) = CHR 0x02" "char_of (0::nat) = CHR 0x00"
      by (simp_all add: char_of_eq_iff)
    then show "(of_char major = (1::nat)) = (major = CHR 0x01)"
      and "(of_char major = (2::nat)) = (major = CHR 0x02)"
      and "(of_char minor = (0::nat)) = (minor = CHR 0x00)"
      using of_char_eq_nat_iff [of 1 major] of_char_eq_nat_iff [of 2 major]
        of_char_eq_nat_iff [of 0 minor]
      by simp_all
  qed
  from parse_npy_header_prefix [OF assms] obtain s3 where
    eq: "parse_npy_header s =
       (if major = CHR 0x01 \<and> minor = CHR 0x00 then
          (case is_read s3 2 of
             (got_len, s4) \<Rightarrow> read_header_text (le_val (store (le_bytes 4 0) got_len)) s4)
        else if major = CHR 0x02 \<and> minor = CHR 0x00 then
          (case is_read s3 4 of
             (got_len, s4) \<Rightarrow> read_header_text (le_val (store (le_bytes 4 0) got_len)) s4)
        else Inl (Version_Not_Supported (of_char major) (of_char minor)))"
    unfolding c1 c2 c0 by blast
  have bad: "parse_npy_header s = Inl (Version_Not_Supported (of_char major) (of_char minor))"
    if "\<not> ?ok"
    using that eq by auto
  have good: "parse_npy_header s \<noteq> Inl (Version_Not_Supported a b)" if "?ok" for a b
  proof -
    obtain g2 t2 where r2: "is_read s3 2 = (g2, t2)" by force
    obtain g4 t4 where r4: "is_read s3 4 = (g4, t4)" by force
    from that eq r2 r4 show ?thesis
      by (auto simp: read_header_text_not_version simp del: le_bytes_numeral)
  qed
  have v1: "\<exists>s'. parse_npy_header s =
                     (case parse_header_text t of Inl e \<Rightarrow> Inl e | Inr r \<Rightarrow> Inr (r, s'))
                  \<and> at s' rst"
    if "major = CHR 0x01 \<and> minor = CHR 0x00 \<and> bs = le_bytes 2 (length t) @ t @ rst
        \<and> length t < 2 ^ 16 \<and> t \<noteq> [] \<and> last t = newline" for t rst
  proof -
    from that assms
    have a: "at s (numpy_magic @ [CHR 0x01, CHR 0x00] @ le_bytes 2 (length t) @ t @ rst)"
      by simp
    from parse_npy_header_v1 [OF a refl] that show ?thesis by blast
  qed
  have v2: "\<exists>s'. parse_npy_header s =
                     (case parse_header_text t of Inl e \<Rightarrow> Inl e | Inr r \<Rightarrow> Inr (r, s'))
                  \<and> at s' rst"
    if "major = CHR 0x02 \<and> minor = CHR 0x00 \<and> bs = le_bytes 4 (length t) @ t @ rst
        \<and> length t < 2 ^ 32 \<and> t \<noteq> [] \<and> last t = newline" for t rst
  proof -
    from that assms
    have a: "at s (numpy_magic @ [CHR 0x02, CHR 0x00] @ le_bytes 4 (length t) @ t @ rst)"
      by simp
    from parse_npy_header_v2 [OF a refl] that show ?thesis by blast
  qed
  from bad good have "(\<exists>a b. parse_npy_header s = Inl (Version_Not_Supported a b)) \<longleftrightarrow> \<not> ?ok"
    by blast
  with bad v1 v2 show ?thesis
    by blast
qed

lemma example_text_length: "length example_text = 59"
  by (simp add: example_text_def)

lemma example_text_last: "last example_text = newline"
  by (simp add: example_text_def)

lemma example_text_parse: "parse_header_text example_text = Inr (1, [1, 3], True)"
  by (simp add: parse_header_text_def example_text_def
      parse_fortran_order_def parse_shape_def parse_word_size_def substr_def substr_from_def
      quote_def shape_loop.simps regex_search_num_def is_digit_def stoul_def isspace_def
      decimal_def digit_val_def)

theorem parse_npy_header_version_witness:
  "parse_npy_header (open_stream (numpy_magic @ [CHR 0x03, CHR 0x00] @ []))
     = Inl (Version_Not_Supported 3 0)
   \<and> (\<exists>s'. parse_npy_header
             (open_stream (numpy_magic @ [CHR 0x01, CHR 0x00]
                @ le_bytes 2 (length example_text) @ example_text @ ''abc''))
           = Inr ((1, [1, 3], True), s') \<and> at s' ''abc'')"
proof
  have "at (open_stream (numpy_magic @ [CHR 0x03, CHR 0x00] @ []))
          (numpy_magic @ [CHR 0x03, CHR 0x00] @ [])"
    by (rule at_open_stream)
  from parse_npy_header_version [OF this]
  show "parse_npy_header (open_stream (numpy_magic @ [CHR 0x03, CHR 0x00] @ []))
     = Inl (Version_Not_Supported 3 0)"
    by simp
next
  let ?bs = "le_bytes 2 (length example_text) @ example_text @ ''abc''"
  have "at (open_stream (numpy_magic @ [CHR 0x01, CHR 0x00] @ ?bs))
          (numpy_magic @ [CHR 0x01, CHR 0x00] @ ?bs)"
    by (rule at_open_stream)
  from parse_npy_header_version [OF this]
  have "\<forall>hdr rest. CHR 0x01 = CHR 0x01 \<and> CHR 0x00 = CHR 0x00
              \<and> ?bs = le_bytes 2 (length hdr) @ hdr @ rest
              \<and> length hdr < 2 ^ 16 \<and> hdr \<noteq> [] \<and> last hdr = newline \<longrightarrow>
            (\<exists>s'. parse_npy_header (open_stream (numpy_magic @ [CHR 0x01, CHR 0x00] @ ?bs)) =
                     (case parse_header_text hdr of Inl e \<Rightarrow> Inl e | Inr r \<Rightarrow> Inr (r, s'))
                  \<and> at s' rest)"
    by blast
  then have "CHR 0x01 = CHR 0x01 \<and> CHR 0x00 = CHR 0x00
              \<and> ?bs = le_bytes 2 (length example_text) @ example_text @ ''abc''
              \<and> length example_text < 2 ^ 16 \<and> example_text \<noteq> []
              \<and> last example_text = newline \<longrightarrow>
            (\<exists>s'. parse_npy_header (open_stream (numpy_magic @ [CHR 0x01, CHR 0x00] @ ?bs)) =
                     (case parse_header_text example_text of
                        Inl e \<Rightarrow> Inl e | Inr r \<Rightarrow> Inr (r, s'))
                  \<and> at s' ''abc'')"
    by blast
  moreover have "example_text \<noteq> []"
    by (simp add: example_text_def)
  ultimately show "\<exists>s'. parse_npy_header (open_stream (numpy_magic @ [CHR 0x01, CHR 0x00] @ ?bs))
           = Inr ((1, [1, 3], True), s') \<and> at s' ''abc''"
    by (simp add: example_text_length example_text_last example_text_parse del: le_bytes_numeral)
qed

lemma length_store: "length got \<le> length dst \<Longrightarrow> length (store dst got) = length dst"
  by (simp add: store_def)

lemma store_full: "length got = length dst \<Longrightarrow> store dst got = got"
  by (simp add: store_def)

lemma NpyArray_new_simps [simp]:
  "shape (NpyArray_new shp ws fo) = shp"
  "word_size (NpyArray_new shp ws fo) = ws"
  "fortran_order (NpyArray_new shp ws fo) = fo"
  "num_vals (NpyArray_new shp ws fo) = foldl (\<lambda>a d. a * d) 1 shp"
  "num_bytes (NpyArray_new shp ws fo) = unat (foldl (\<lambda>a d. a * d) 1 shp * ws)"
  by (simp_all add: NpyArray_new_def num_bytes_def Let_def)

lemma is_read_ok:
  assumes "is_read s n = (got, s')" and "\<not> failbit s'"
  shows "got = take n (drop (rpos s) (content s))" and "length got = n"
  using assms by (auto simp: is_read_def Let_def split: if_splits)

text \<open>The copy that follows the inflation, for an inflation that answers \<open>Z_OK\<close>: the
  array has the shape, word size and order of the header parsed from the start of the
  buffer, and its payload is the tail of the buffer that starts at the uncompressed size
  minus the byte length of the array.\<close>

lemma load_the_npz_array_tail:
  assumes "load_the_npz_array zl s compr_bytes uncompr_bytes = Inr (arr, s')"
  shows "\<exists>buffer hs.
           buffer = store (replicate uncompr_bytes (CHR 0x00))
                      (take uncompr_bytes
                         (inflated (zl (take compr_bytes (drop (rpos s) (content s))) uncompr_bytes)))
         \<and> length buffer = uncompr_bytes
         \<and> parse_npy_header (open_stream buffer)
              = Inr ((word_size arr, shape arr, fortran_order arr), hs)
         \<and> num_vals arr = foldl (\<lambda>a d. a * d) 1 (shape arr)
         \<and> num_bytes arr = unat (num_vals arr * word_size arr)
         \<and> num_bytes arr \<le> uncompr_bytes
         \<and> data_holder arr = drop (uncompr_bytes - num_bytes arr) buffer
         \<and> data_holder arr = rev (take (num_bytes arr) (rev buffer))"
proof -
  obtain got s1 where r: "is_read s compr_bytes = (got, s1)" by force
  let ?r = "zl (store (replicate compr_bytes (CHR 0x00)) got) uncompr_bytes"
  let ?buffer = "store (replicate uncompr_bytes (CHR 0x00)) (take uncompr_bytes (inflated ?r))"
  from assms r have ok: "\<not> failbit s1"
    by (auto simp: load_the_npz_array_def Let_def split: if_splits)
  from is_read_ok [OF r ok] have got: "got = take compr_bytes (drop (rpos s) (content s))"
    and lg: "length got = compr_bytes" by simp_all
  have st: "store (replicate compr_bytes (CHR 0x00)) got = got"
    using lg by (simp add: store_full)
  have lb: "length ?buffer = uncompr_bytes"
    by (simp add: length_store)
  from assms r obtain ws shp fo hs where
    p: "parse_npy_header (open_stream ?buffer) = Inr ((ws, shp, fo), hs)"
    and le: "num_bytes (NpyArray_new shp ws fo) \<le> uncompr_bytes"
    and a: "arr = (NpyArray_new shp ws fo)\<lparr>data_holder :=
              take (num_bytes (NpyArray_new shp ws fo))
                (drop (uncompr_bytes - num_bytes (NpyArray_new shp ws fo)) ?buffer)\<rparr>"
    by (auto simp: load_the_npz_array_def Let_def split: if_splits sum.splits)
  let ?n = "unat (foldl (\<lambda>a d. a * d) 1 shp * ws)"
  from le have le': "?n \<le> uncompr_bytes" by simp
  have d: "data_holder arr = drop (uncompr_bytes - ?n) ?buffer"
    using a lb le' by simp
  have nb: "num_bytes arr = ?n"
    using d lb le' by (simp add: num_bytes_def)
  have "drop (uncompr_bytes - ?n) ?buffer = rev (take ?n (rev ?buffer))"
    using lb le' by (simp add: take_rev)
  with p a d nb le' lb st got show ?thesis
    by auto
qed

lemma load_the_npz_array_ok:
  assumes "at s (c @ rest)" and "length c = compr_bytes"
    and "init_status (zl c uncompr_bytes) = Z_OK"
    and "inflate_status (zl c uncompr_bytes) = Z_OK"
    and "end_status (zl c uncompr_bytes) = Z_OK"
    and "buffer = store (replicate uncompr_bytes (CHR 0x00))
                    (take uncompr_bytes (inflated (zl c uncompr_bytes)))"
    and "parse_npy_header (open_stream buffer) = Inr ((ws, shp, fo), hs)"
    and "unat (foldl (\<lambda>a d. a * d) 1 shp * ws) \<le> uncompr_bytes"
  shows "\<exists>s1. at s1 rest \<and>
           load_the_npz_array zl s compr_bytes uncompr_bytes =
             Inr (\<lparr>data_holder =
                     drop (uncompr_bytes - unat (foldl (\<lambda>a d. a * d) 1 shp * ws)) buffer,
                   shape = shp, word_size = ws, fortran_order = fo,
                   num_vals = foldl (\<lambda>a d. a * d) 1 shp\<rparr>, s1)"
proof -
  from is_read_at [OF assms(1,2)] obtain s1 where
    r: "is_read s compr_bytes = (c, s1)" and a: "at s1 rest" and g: "gcount s1 = compr_bytes"
    by blast
  have st: "store (replicate compr_bytes (CHR 0x00)) c = c"
    using assms(2) by (simp add: store_full)
  have lb: "length buffer = uncompr_bytes"
    using assms(6) by (simp add: length_store)
  let ?n = "unat (foldl (\<lambda>a d. a * d) 1 shp * ws)"
  have "take ?n (drop (uncompr_bytes - ?n) buffer) = drop (uncompr_bytes - ?n) buffer"
    using lb assms(8) by simp
  with r a g st assms(3-8) have
    "load_the_npz_array zl s compr_bytes uncompr_bytes =
       Inr ((NpyArray_new shp ws fo)\<lparr>data_holder := drop (uncompr_bytes - ?n) buffer\<rparr>, s1)"
    by (simp add: load_the_npz_array_def Let_def at_def)
  with a show ?thesis
    by (auto simp: NpyArray_new_def Let_def)
qed

lemma example_file_length: "length example_file = 72"
  by (simp add: example_file_def example_text_length numpy_magic_def)

lemma example_file_parse:
  "\<exists>hs. parse_npy_header (open_stream example_file) = Inr ((1, [1, 3], True), hs)
      \<and> at hs ''abc''"
proof -
  have "at (open_stream example_file)
     (numpy_magic @ [CHR 0x01, CHR 0x00] @ le_bytes 2 (length example_text) @ example_text @ ''abc'')"
    unfolding example_file_def by (rule at_open_stream)
  moreover have "example_text \<noteq> []"
    by (simp add: example_text_def)
  ultimately show ?thesis
    using parse_npy_header_v1 [of "open_stream example_file" "length example_text" example_text "''abc''"]
    by (simp add: example_text_length example_text_last example_text_parse
        del: le_bytes_numeral) blast
qed

text \<open>
  Claim C7. The inflation is tested with \<open>inflate(..., Z_FINISH) != Z_OK\<close>, and \<open>inflate\<close>
  called with \<open>Z_FINISH\<close> does not answer \<open>Z_OK\<close>. So \<open>load_the_npz_array\<close> returns no
  array, whatever the entry: once the compressed bytes are read and \<open>inflateInit2\<close> has
  answered \<open>Z_OK\<close> it raises the error of the inflation, also when the inflation has
  written the whole buffer, and the tail of the buffer is never copied.
\<close>

theorem load_the_npz_array_finish:
  assumes "\<And>c n. inflate_status (zl c n) \<noteq> Z_OK"
  shows "(\<exists>e. load_the_npz_array zl s compr_bytes uncompr_bytes = Inl e)
     \<and> (\<forall>c rest. at s (c @ rest) \<and> length c = compr_bytes
            \<and> init_status (zl c uncompr_bytes) = Z_OK \<longrightarrow>
          load_the_npz_array zl s compr_bytes uncompr_bytes = Inl Failed_Inflating)"
proof (intro conjI allI impI)
  obtain got s1 where r: "is_read s compr_bytes = (got, s1)" by force
  from assms [of "store (replicate compr_bytes (CHR 0x00)) got" uncompr_bytes] r
  show "\<exists>e. load_the_npz_array zl s compr_bytes uncompr_bytes = Inl e"
    by (simp add: load_the_npz_array_def Let_def)
next
  fix c rest
  assume h: "at s (c @ rest) \<and> length c = compr_bytes \<and> init_status (zl c uncompr_bytes) = Z_OK"
  then have a: "at s (c @ rest)" and l: "length c = compr_bytes"
    and i: "init_status (zl c uncompr_bytes) = Z_OK"
    by simp_all
  from is_read_at [OF a l] obtain s1 where
    r: "is_read s compr_bytes = (c, s1)" and a1: "at s1 rest" and g: "gcount s1 = compr_bytes"
    by blast
  have st: "store (replicate compr_bytes (CHR 0x00)) c = c"
    using l by (simp add: store_full)
  from a1 have nf: "\<not> failbit s1"
    by (simp add: at_def)
  from r g nf st i assms [of c uncompr_bytes]
  show "load_the_npz_array zl s compr_bytes uncompr_bytes = Inl Failed_Inflating"
    by (simp add: load_the_npz_array_def Let_def)
qed

theorem load_the_npz_array_finish_witness:
  "inflate_status (zlib_stored example_file 72) = Z_STREAM_END
   \<and> inflated (zlib_stored example_file 72) = example_file
   \<and> load_the_npz_array zlib_stored (open_stream (example_file @ ''PK'')) 72 72
       = Inl Failed_Inflating"
proof -
  have z: "inflate_status (zlib_stored c n) \<noteq> Z_OK" for c n
    by (simp add: zlib_stored_def Z_OK_def Z_STREAM_END_def Z_BUF_ERROR_def)
  have a: "at (open_stream (example_file @ ''PK'')) (example_file @ ''PK'')"
    by (rule at_open_stream)
  have i: "init_status (zlib_stored example_file 72) = Z_OK"
    by (simp add: zlib_stored_def)
  from load_the_npz_array_finish [of zlib_stored "open_stream (example_file @ ''PK'')" 72 72, OF z]
  have "at (open_stream (example_file @ ''PK'')) (example_file @ ''PK'')
          \<and> length example_file = 72 \<and> init_status (zlib_stored example_file 72) = Z_OK \<longrightarrow>
        load_the_npz_array zlib_stored (open_stream (example_file @ ''PK'')) 72 72
          = Inl Failed_Inflating"
    by blast
  with a i show ?thesis
    by (simp add: example_file_length zlib_stored_def)
qed

section \<open>Facts about archives\<close>

lemma load_the_npy_file_at:
  assumes "\<not> failbit s"
    and "parse_npy_header s = Inr ((ws, shp, fo), s1)"
    and "at s1 (payload @ rest)"
    and "length payload = unat (foldl (\<lambda>a d. a * d) 1 shp * ws)"
  shows "\<exists>s2. at s2 rest \<and> content s2 = content s1 \<and> rpos s2 = rpos s1 + length payload \<and>
           load_the_npy_file s =
             Inr (\<lparr>data_holder = payload, shape = shp, word_size = ws, fortran_order = fo,
                   num_vals = foldl (\<lambda>a d. a * d) 1 shp\<rparr>, s2)"
proof -
  from is_read_at [OF assms(3) refl] obtain s2 where
    r: "is_read s1 (length payload) = (payload, s2)" and a: "at s2 rest"
    and g: "gcount s2 = length payload"
    and c: "content s2 = content s1" and p: "rpos s2 = rpos s1 + length payload"
    by blast
  have st: "store (replicate (length payload) (CHR 0x00)) payload = payload"
    by (simp add: store_full)
  from r a g st assms(1,2,4) have
    "load_the_npy_file s =
       Inr ((NpyArray_new shp ws fo)\<lparr>data_holder := payload\<rparr>, s2)"
    by (simp add: load_the_npy_file_def Let_def at_def NpyArray_new_def num_bytes_def)
  with a c p show ?thesis
    by (auto simp: NpyArray_new_def Let_def)
qed

lemma load_the_npy_file_short:
  assumes "\<not> failbit s"
    and "parse_npy_header s = Inr ((ws, shp, fo), s1)"
    and "at s1 payload"
    and "length payload < unat (foldl (\<lambda>a d. a * d) 1 shp * ws)"
  shows "load_the_npy_file s = Inl Failed_Fread"
proof -
  from is_read_at_short [OF assms(3,4)] obtain s2 where
    "is_read s1 (unat (foldl (\<lambda>a d. a * d) 1 shp * ws)) = (payload, s2)" and "failbit s2"
    by blast
  with assms(1,2) show ?thesis
    by (simp add: load_the_npy_file_def Let_def)
qed

text \<open>One turn of the loop of \<open>npz_load\<close> on a stream that holds a whole block.\<close>

lemma npz_load_loop_block:
  assumes "at s (blk @ rest)" and "length blk = zip_header_length"
  shows "\<exists>s1. at s1 rest \<and> content s1 = content s \<and> rpos s1 = rpos s + zip_header_length \<and>
     npz_load_loop zl s arrays =
       (if blk ! 2 \<noteq> CHR 0x03 \<or> blk ! 3 \<noteq> CHR 0x04 then Inr arrays
        else (case npz_entry zl blk s1 of
                Inl e \<Rightarrow> Inl e
              | Inr (varname, arr, s2) \<Rightarrow> npz_load_loop zl s2 (arrays(varname \<mapsto> arr))))"
proof -
  from is_read_at [OF assms] obtain s1 where
    r: "is_read s zip_header_length = (blk, s1)" and a: "at s1 rest"
    and g: "gcount s1 = zip_header_length"
    and c: "content s1 = content s" and p: "rpos s1 = rpos s + zip_header_length"
    by blast
  have st: "store (replicate zip_header_length (CHR 0x00)) blk = blk"
    using assms(2) by (simp add: store_full)
  from assms(1) have nf: "\<not> failbit s" by (simp add: at_def)
  from a have nf1: "\<not> failbit s1" by (simp add: at_def)
  have "npz_load_loop zl s arrays =
       (if blk ! 2 \<noteq> CHR 0x03 \<or> blk ! 3 \<noteq> CHR 0x04 then Inr arrays
        else (case npz_entry zl blk s1 of
                Inl e \<Rightarrow> Inl e
              | Inr (varname, arr, s2) \<Rightarrow> npz_load_loop zl s2 (arrays(varname \<mapsto> arr))))"
    by (subst npz_load_loop.simps) (simp add: nf nf1 r g st Let_def)
  with a c p show ?thesis by blast
qed

lemma npz_load_loop_short:
  assumes "at s bs" and "length bs < zip_header_length"
  shows "npz_load_loop zl s arrays = Inl Failed_Reading_Header"
proof -
  from is_read_at_short [OF assms] obtain s1 where
    "is_read s zip_header_length = (bs, s1)" and "failbit s1" by blast
  moreover from assms(1) have "\<not> failbit s" by (simp add: at_def)
  ultimately show ?thesis
    by (subst npz_load_loop.simps) (simp add: Let_def)
qed

text \<open>The name and the extra field of an entry that is stored without compression.\<close>

lemma npz_entry_stored:
  assumes "at s (name @ extra @ rest)"
    and "length name = le_val (take 2 (drop 26 blk))"
    and "length extra = le_val (take 2 (drop 28 blk))"
    and "le_val (take 2 (drop 8 blk)) = 0"
  shows "\<exists>s2. at s2 rest \<and> content s2 = content s \<and>
     npz_entry zl blk s =
       (case load_the_npy_file s2 of
          Inl e \<Rightarrow> Inl e
        | Inr (arr, s3) \<Rightarrow>
            Inr (if length name \<ge> 4 then take (length name - 4) name else name, arr, s3))"
proof -
  from is_read_at [OF assms(1) refl] obtain s1 where
    r1: "is_read s (length name) = (name, s1)" and a1: "at s1 (extra @ rest)"
    and g1: "gcount s1 = length name" and c1: "content s1 = content s"
    by blast
  from is_read_at [OF a1 refl] obtain s2 where
    r2: "is_read s1 (length extra) = (extra, s2)" and a2: "at s2 rest"
    and g2: "gcount s2 = length extra" and c2: "content s2 = content s1"
    by blast
  have st: "store (replicate (length name) space) name = name"
    by (simp add: store_full)
  from a1 have nf1: "\<not> failbit s1" by (simp add: at_def)
  from a2 have nf2: "\<not> failbit s2" by (simp add: at_def)
  show ?thesis
  proof (cases "extra = []")
    case True
    with a1 have "at s1 rest" by simp
    moreover have "npz_entry zl blk s =
       (case load_the_npy_file s1 of
          Inl e \<Rightarrow> Inl e
        | Inr (arr, s3) \<Rightarrow>
            Inr (if length name \<ge> 4 then take (length name - 4) name else name, arr, s3))"
      using True assms(2,3,4) r1 g1 nf1 st
      by (simp add: npz_entry_def Let_def split: sum.splits)
    ultimately show ?thesis using c1 by blast
  next
    case False
    then have pos: "0 < le_val (take 2 (drop 28 blk))"
      using assms(3) by (metis length_greater_0_conv)
    have "npz_entry zl blk s =
       (case load_the_npy_file s2 of
          Inl e \<Rightarrow> Inl e
        | Inr (arr, s3) \<Rightarrow>
            Inr (if length name \<ge> 4 then take (length name - 4) name else name, arr, s3))"
      using assms(2,3,4) r1 g1 nf1 r2 g2 nf2 st pos
      by (simp add: npz_entry_def Let_def split: sum.splits)
    with a2 c1 c2 show ?thesis by auto
  qed
qed

lemma npz_local_header_split:
  "npz_local_header crc nbytes key = take 30 (npz_local_header crc nbytes key) @ key"
  and npz_local_header_length_30: "length (take 30 (npz_local_header crc nbytes key)) = 30"
  by (simp_all add: npz_local_header_def del: le_bytes_numeral)

lemma npz_local_header_signature:
  "take 4 (npz_local_header crc nbytes key) = ''PK'' @ [CHR 0x03, CHR 0x04]"
  "take 30 (npz_local_header crc nbytes key) ! 2 = CHR 0x03"
  "take 30 (npz_local_header crc nbytes key) ! 3 = CHR 0x04"
  by (simp_all add: npz_local_header_def char_of_eq_iff)

lemma npz_local_header_method:
  "le_val (take 2 (drop 8 (take 30 (npz_local_header crc nbytes key)))) = 0"
  by (simp add: npz_local_header_def)

lemma npz_local_header_name_len:
  "le_val (take 2 (drop 26 (take 30 (npz_local_header crc nbytes key)))) = length key mod 2 ^ 16"
proof -
  have "take 2 (drop 26 (take 30 (npz_local_header crc nbytes key)))
          = le_bytes 2 (length key mod 2 ^ 16)"
    by (simp add: npz_local_header_def del: le_bytes_numeral)
  then show ?thesis
    by (simp only: le_val_le_bytes) simp
qed

lemma npz_local_header_extra_len:
  "le_val (take 2 (drop 28 (take 30 (npz_local_header crc nbytes key)))) = 0"
  by (simp add: npz_local_header_def)

lemma npz_local_header_sizes:
  "le_val (take 4 (drop 18 (take 30 (npz_local_header crc nbytes key)))) = nbytes mod 2 ^ 32"
  "le_val (take 4 (drop 22 (take 30 (npz_local_header crc nbytes key)))) = nbytes mod 2 ^ 32"
proof -
  have "take 4 (drop 18 (take 30 (npz_local_header crc nbytes key)))
          = le_bytes 4 (nbytes mod 2 ^ 32)"
    and "take 4 (drop 22 (take 30 (npz_local_header crc nbytes key)))
          = le_bytes 4 (nbytes mod 2 ^ 32)"
    by (simp_all add: npz_local_header_def del: le_bytes_numeral)
  then show "le_val (take 4 (drop 18 (take 30 (npz_local_header crc nbytes key)))) = nbytes mod 2 ^ 32"
    and "le_val (take 4 (drop 22 (take 30 (npz_local_header crc nbytes key)))) = nbytes mod 2 ^ 32"
    by (simp_all only: le_val_le_bytes) simp_all
qed

lemma example_file_parse_at:
  assumes "at s (example_file @ rest)"
  shows "\<exists>s'. parse_npy_header s = Inr ((1, [1, 3], True), s') \<and> at s' (''abc'' @ rest)"
proof -
  from assms have "at s
     (numpy_magic @ [CHR 0x01, CHR 0x00] @ le_bytes 2 (length example_text) @ example_text
        @ (''abc'' @ rest))"
    by (simp add: example_file_def del: le_bytes_numeral)
  moreover have "example_text \<noteq> []"
    by (simp add: example_text_def)
  ultimately show ?thesis
    using parse_npy_header_v1 [of s "length example_text" example_text "''abc'' @ rest"]
    by (simp add: example_text_length example_text_last example_text_parse
        del: le_bytes_numeral) blast
qed

lemma example_file_load_at:
  assumes "at s (example_file @ rest)"
  shows "\<exists>s'. at s' rest \<and> load_the_npy_file s = Inr (example_array, s')"
proof -
  from example_file_parse_at [OF assms] obtain s1 where
    p: "parse_npy_header s = Inr ((1, [1, 3], True), s1)" and a: "at s1 (''abc'' @ rest)"
    by blast
  from assms have nf: "\<not> failbit s" by (simp add: at_def)
  have "length ''abc'' = unat (foldl (\<lambda>a d. a * d) 1 [1, 3 :: size_t] * 1)"
    by simp
  from load_the_npy_file_at [OF nf p a this] show ?thesis
    by (auto simp: example_array_def)
qed

text \<open>\<open>npz_entry\<close> reads the fields of the block from offset 8 on; its first four bytes
  play no part.\<close>

lemma npz_entry_example_block:
  assumes "at s (name @ example_file @ rest)" and "length name < 2 ^ 16"
    and "drop 4 blk = drop 4 (take 30 (npz_local_header crc 72 name))"
  shows "\<exists>s'. at s' rest \<and>
     npz_entry zl blk s =
       Inr (if length name \<ge> 4 then take (length name - 4) name else name, example_array, s')"
proof -
  let ?blk = "take 30 (npz_local_header crc 72 name)"
  have d: "drop (4 + k) blk = drop (4 + k) ?blk" for k
    using assms(3) by (metis add.commute drop_drop)
  have d26: "drop 26 blk = drop 26 ?blk" and d28: "drop 28 blk = drop 28 ?blk"
    and d8: "drop 8 blk = drop 8 ?blk"
    using d [of 22] d [of 24] d [of 4] by simp_all
  have n: "length name = le_val (take 2 (drop 26 blk))"
    using assms(2) by (simp only: d26 npz_local_header_name_len) simp
  have x: "length ([] :: byte list) = le_val (take 2 (drop 28 blk))"
    by (simp only: d28 npz_local_header_extra_len) simp
  have m: "le_val (take 2 (drop 8 blk)) = 0"
    by (simp only: d8 npz_local_header_method)
  from assms(1) have a: "at s (name @ [] @ example_file @ rest)" by simp
  from npz_entry_stored [OF a n x m, of zl] obtain s2 where
    a2: "at s2 (example_file @ rest)"
    and e: "npz_entry zl blk s =
       (case load_the_npy_file s2 of
          Inl e \<Rightarrow> Inl e
        | Inr (arr, s3) \<Rightarrow>
            Inr (if length name \<ge> 4 then take (length name - 4) name else name, arr, s3))"
    by blast
  from example_file_load_at [OF a2] obtain s3 where
    "at s3 rest" and "load_the_npy_file s2 = Inr (example_array, s3)" by blast
  with e show ?thesis by auto
qed

lemma npz_entry_example:
  assumes "at s (name @ example_file @ rest)" and "length name < 2 ^ 16"
  shows "\<exists>s'. at s' rest \<and>
     npz_entry zl (take 30 (npz_local_header crc 72 name)) s =
       Inr (if length name \<ge> 4 then take (length name - 4) name else name, example_array, s')"
  using npz_entry_example_block [OF assms refl] .

lemma example_entry_split:
  "example_entry name = take 30 (npz_local_header 0 72 name) @ name @ example_file"
  unfolding example_entry_def
  by (subst npz_local_header_split) simp

text \<open>
  Claim C10. The key under which \<open>npz_load\<close> stores an entry is the stored name without
  its last four characters when the name has at least four; a shorter name is the key
  as it stands, and a name of exactly four characters gives the empty key.
\<close>

theorem npz_entry_key:
  assumes "npz_entry zl blk s = Inr (key, arr, s')"
  shows "\<exists>name. name = take (le_val (take 2 (drop 26 blk))) (drop (rpos s) (content s))
       \<and> length name = le_val (take 2 (drop 26 blk))
       \<and> key = (if 4 \<le> length name then take (length name - 4) name else name)
       \<and> (length name < 4 \<longrightarrow> key = name)
       \<and> (length name = 4 \<longrightarrow> key = [])"
proof -
  let ?n = "le_val (take 2 (drop 26 blk))"
  obtain got s1 where r: "is_read s ?n = (got, s1)" by force
  from assms r have ok: "\<not> failbit s1"
    by (auto simp: npz_entry_def Let_def split: if_splits)
  from is_read_ok [OF r ok] have got: "got = take ?n (drop (rpos s) (content s))"
    and lg: "length got = ?n" by simp_all
  have st: "store (replicate ?n space) got = got"
    using lg by (simp add: store_full)
  from assms r ok st lg have "key = (if 4 \<le> length got then take (length got - 4) got else got)"
    by (auto simp: npz_entry_def Let_def split: if_splits sum.splits)
  with got lg show ?thesis
    by auto
qed

theorem npz_entry_key_witness:
  "(\<exists>arr s'. npz_entry zlib_stored (take 30 (npz_local_header 0 72 ''ab.npy''))
               (open_stream (''ab.npy'' @ example_file @ [])) = Inr (''ab'', arr, s'))
   \<and> (\<exists>arr s'. npz_entry zlib_stored (take 30 (npz_local_header 0 72 ''abc''))
               (open_stream (''abc'' @ example_file @ [])) = Inr (''abc'', arr, s'))
   \<and> (\<exists>arr s'. npz_entry zlib_stored (take 30 (npz_local_header 0 72 ''.npy''))
               (open_stream (''.npy'' @ example_file @ [])) = Inr ('''', arr, s'))"
proof -
  have e: "\<exists>arr s' key. npz_entry zlib_stored (take 30 (npz_local_header 0 72 name))
               (open_stream (name @ example_file @ [])) = Inr (key, arr, s')"
    if "length name < 2 ^ 16" for name
  proof -
    have "at (open_stream (name @ example_file @ [])) (name @ example_file @ [])"
      by (rule at_open_stream)
    from npz_entry_example [OF this that, where zl = zlib_stored and crc = 0]
    show ?thesis by blast
  qed
  have n: "le_val (take 2 (drop 26 (take 30 (npz_local_header 0 72 name)))) = length name"
    if "length name < 2 ^ 16" for name
    using that by (simp only: npz_local_header_name_len) simp
  have k: "\<exists>arr s'. npz_entry zlib_stored (take 30 (npz_local_header 0 72 name))
               (open_stream (name @ example_file @ [])) =
             Inr (if 4 \<le> length name then take (length name - 4) name else name, arr, s')"
    if "length name < 2 ^ 16" for name
  proof -
    from e [OF that] obtain arr s' key where
      r: "npz_entry zlib_stored (take 30 (npz_local_header 0 72 name))
               (open_stream (name @ example_file @ [])) = Inr (key, arr, s')"
      by blast
    from npz_entry_key [OF r] have
      "key = (if 4 \<le> length name then take (length name - 4) name else name)"
      by (simp add: n [OF that] open_stream_def)
    with r show ?thesis by blast
  qed
  from k [of "''ab.npy''"] k [of "''abc''"] k [of "''.npy''"] show ?thesis
    by simp
qed

text \<open>
  Claim C8, as the code has it. The loop of \<open>npz_load\<close> looks at the third and fourth
  bytes of the block only. A block in which they are not 3 and 4 ends the scan with the
  mapping built so far, and no error; a block in which they are, and so every block that
  begins with the signature PK 3 4, is processed as an entry.
\<close>

theorem npz_load_loop_signature:
  assumes "at s (blk @ rest)" and "length blk = 30"
  shows "\<exists>s1. at s1 rest \<and> rpos s1 = rpos s + 30
      \<and> (blk ! 2 \<noteq> CHR 0x03 \<or> blk ! 3 \<noteq> CHR 0x04 \<longrightarrow> npz_load_loop zl s arrays = Inr arrays)
      \<and> (blk ! 2 = CHR 0x03 \<and> blk ! 3 = CHR 0x04 \<longrightarrow>
           npz_load_loop zl s arrays =
             (case npz_entry zl blk s1 of
                Inl e \<Rightarrow> Inl e
              | Inr (varname, arr, s2) \<Rightarrow> npz_load_loop zl s2 (arrays(varname \<mapsto> arr))))
      \<and> (take 4 blk = ''PK'' @ [CHR 0x03, CHR 0x04] \<longrightarrow>
           npz_load_loop zl s arrays =
             (case npz_entry zl blk s1 of
                Inl e \<Rightarrow> Inl e
              | Inr (varname, arr, s2) \<Rightarrow> npz_load_loop zl s2 (arrays(varname \<mapsto> arr))))"
proof -
  from assms(2) have l: "length blk = zip_header_length"
    by (simp add: zip_header_length_def)
  from npz_load_loop_block [OF assms(1) l, of zl arrays] obtain s1 where
    a: "at s1 rest" and p: "rpos s1 = rpos s + 30"
    and e: "npz_load_loop zl s arrays =
       (if blk ! 2 \<noteq> CHR 0x03 \<or> blk ! 3 \<noteq> CHR 0x04 then Inr arrays
        else (case npz_entry zl blk s1 of
                Inl e \<Rightarrow> Inl e
              | Inr (varname, arr, s2) \<Rightarrow> npz_load_loop zl s2 (arrays(varname \<mapsto> arr))))"
    by (auto simp: zip_header_length_def)
  have sig: "blk ! 2 = CHR 0x03 \<and> blk ! 3 = CHR 0x04" if "take 4 blk = ''PK'' @ [CHR 0x03, CHR 0x04]"
  proof -
    have "blk ! 2 = take 4 blk ! 2" and "blk ! 3 = take 4 blk ! 3" by simp_all
    with that show ?thesis by simp
  qed
  from a p e sig show ?thesis
    by auto
qed

lemma example_directory_block_facts:
  "length example_directory_block = 30"
  "example_directory_block ! 2 \<noteq> CHR 0x03"
  by (simp_all add: example_directory_block_def)

lemma example_loop_end:
  assumes "at s (example_directory_block @ rest)"
  shows "npz_load_loop zl s arrays = Inr arrays"
  using npz_load_loop_block [OF assms, of zl arrays] example_directory_block_facts
  by (auto simp: zip_header_length_def)

theorem npz_load_loop_signature_witness:
  "npz_load_loop zlib_stored (open_stream (example_directory_block @ [])) Map.empty = Inr Map.empty
   \<and> npz_load_loop zlib_stored
         (open_stream (take 30 (npz_local_header 0 72 ''ab.npy'')
            @ (''ab.npy'' @ example_file @ example_directory_block @ []))) Map.empty
       = Inr (Map.empty(''ab'' \<mapsto> example_array))"
proof
  have "at (open_stream (example_directory_block @ [])) (example_directory_block @ [])"
    by (rule at_open_stream)
  from npz_load_loop_signature [OF this example_directory_block_facts(1), of zlib_stored Map.empty]
  show "npz_load_loop zlib_stored (open_stream (example_directory_block @ [])) Map.empty
          = Inr Map.empty"
    using example_directory_block_facts(2) by auto
next
  let ?blk = "take 30 (npz_local_header 0 72 ''ab.npy'')"
  let ?rest = "''ab.npy'' @ example_file @ example_directory_block @ []"
  let ?s = "open_stream (?blk @ ?rest)"
  have "at ?s (?blk @ ?rest)" by (rule at_open_stream)
  from npz_load_loop_signature [OF this npz_local_header_length_30, of zlib_stored Map.empty]
  obtain s1 where a1: "at s1 ?rest"
    and e: "npz_load_loop zlib_stored ?s Map.empty =
             (case npz_entry zlib_stored ?blk s1 of
                Inl e \<Rightarrow> Inl e
              | Inr (varname, arr, s2) \<Rightarrow>
                  npz_load_loop zlib_stored s2 (Map.empty(varname \<mapsto> arr)))"
    using npz_local_header_signature(2,3) [of 0 72 "''ab.npy''"] by auto
  from npz_entry_example [OF a1, of zlib_stored 0] obtain s2 where
    a2: "at s2 (example_directory_block @ [])"
    and n: "npz_entry zlib_stored ?blk s1 = Inr (''ab'', example_array, s2)"
    by auto
  from e n example_loop_end [OF a2]
  show "npz_load_loop zlib_stored ?s Map.empty = Inr (Map.empty(''ab'' \<mapsto> example_array))"
    by simp
qed

text \<open>
  Claim C8 as it is stated fails: a block that begins with the bytes X X 3 4 does not carry
  the signature, and still the loop takes it for an entry, stores its array and goes on.
\<close>

theorem npz_load_unsigned_block_counterexample:
  "take 4 (''XX'' @ drop 2 (take 30 (npz_local_header 0 72 ''ab.npy'')))
      \<noteq> ''PK'' @ [CHR 0x03, CHR 0x04]
   \<and> npz_load zlib_stored
         (Some ((''XX'' @ drop 2 (take 30 (npz_local_header 0 72 ''ab.npy'')))
            @ (''ab.npy'' @ example_file @ example_directory_block @ [])))
       = Inr (Map.empty(''ab'' \<mapsto> example_array))
   \<and> Map.empty(''ab'' \<mapsto> example_array) \<noteq> Map.empty"
proof -
  let ?blk = "''XX'' @ drop 2 (take 30 (npz_local_header 0 72 ''ab.npy''))"
  let ?rest = "''ab.npy'' @ example_file @ example_directory_block @ []"
  let ?s = "open_stream (?blk @ ?rest)"
  have l: "length ?blk = zip_header_length"
    using npz_local_header_length_30 [of 0 72 "''ab.npy''"]
    by (simp add: zip_header_length_def)
  have b: "?blk ! 2 = CHR 0x03" "?blk ! 3 = CHR 0x04"
    by (simp_all add: npz_local_header_def char_of_eq_iff)
  have d: "drop 4 ?blk = drop 4 (take 30 (npz_local_header 0 72 ''ab.npy''))"
    by simp
  have "at ?s (?blk @ ?rest)" by (rule at_open_stream)
  from npz_load_loop_block [OF this l, of zlib_stored Map.empty]
  obtain s1 where a1: "at s1 ?rest"
    and e: "npz_load_loop zlib_stored ?s Map.empty =
             (case npz_entry zlib_stored ?blk s1 of
                Inl e \<Rightarrow> Inl e
              | Inr (varname, arr, s2) \<Rightarrow>
                  npz_load_loop zlib_stored s2 (Map.empty(varname \<mapsto> arr)))"
    using b by auto
  from npz_entry_example_block [OF a1 _ d, of zlib_stored] obtain s2 where
    a2: "at s2 (example_directory_block @ [])"
    and n: "npz_entry zlib_stored ?blk s1 = Inr (''ab'', example_array, s2)"
    by auto
  from e n example_loop_end [OF a2]
  have "npz_load zlib_stored (Some (?blk @ ?rest)) = Inr (Map.empty(''ab'' \<mapsto> example_array))"
    by (simp add: npz_load_def)
  moreover have "take 4 ?blk \<noteq> ''PK'' @ [CHR 0x03, CHR 0x04]"
    by simp
  ultimately show ?thesis
    by simp
qed

section \<open>Facts about saving into an archive\<close>

lemma le_val_le_bytes_2: "le_val (le_bytes 2 (x mod 2 ^ 16)) = x mod 2 ^ 16"
proof -
  have "(256 :: nat) ^ 2 = 2 ^ 16" by simp
  then show ?thesis
    by (simp only: le_val_le_bytes mod_mod_trivial)
qed

lemma le_val_le_bytes_4: "le_val (le_bytes 4 (x mod 2 ^ 32)) = x mod 2 ^ 32"
proof -
  have "(256 :: nat) ^ 4 = 2 ^ 32" by simp
  then show ?thesis
    by (simp only: le_val_le_bytes mod_mod_trivial)
qed

lemma le_val_le_bytes_0: "le_val (le_bytes k 0) = 0"
  by (simp only: le_val_le_bytes mod_0)

lemma length_npz_footer: "length (npz_footer nrecs ghs off) = 22"
  by (simp add: npz_footer_def)

lemma parse_zip_footer_npz_footer:
  "parse_zip_footer (pre @ npz_footer nrecs ghs off)
     = Inr ((nrecs + 1) mod 2 ^ 16, ghs mod 2 ^ 32, off mod 2 ^ 32)"
proof -
  let ?f = "npz_footer nrecs ghs off"
  have d: "drop (length (pre @ ?f) - zip_footer_length) (pre @ ?f) = ?f"
    by (simp add: zip_footer_length_def length_npz_footer)
  have l: "\<not> length (pre @ ?f) < zip_footer_length"
    by (simp add: zip_footer_length_def length_npz_footer)
  have f4: "take 2 (drop 4 ?f) = le_bytes 2 0" and f6: "take 2 (drop 6 ?f) = le_bytes 2 0"
    and f8: "take 2 (drop 8 ?f) = le_bytes 2 ((nrecs + 1) mod 2 ^ 16)"
    and f10: "take 2 (drop 10 ?f) = le_bytes 2 ((nrecs + 1) mod 2 ^ 16)"
    and f12: "take 4 (drop 12 ?f) = le_bytes 4 (ghs mod 2 ^ 32)"
    and f16: "take 4 (drop 16 ?f) = le_bytes 4 (off mod 2 ^ 32)"
    and f20: "take 2 (drop 20 ?f) = le_bytes 2 0"
    by (simp_all add: npz_footer_def del: le_bytes_numeral)
  show ?thesis
    unfolding parse_zip_footer_def Let_def d f4 f6 f8 f10 f12 f16 f20
      le_val_le_bytes_2 le_val_le_bytes_4 le_val_le_bytes_0
    using l by (simp only: if_False simp_thms)
qed

lemma length_npz_local_header: "length (npz_local_header crc nbytes key) = 30 + length key"
  by (simp add: npz_local_header_def)

lemma length_npz_global_record:
  "length (npz_global_record (npz_local_header crc nbytes key) off key) = 46 + length key"
  by (simp add: npz_global_record_def npz_local_header_def)

lemma npz_global_record_method:
  "le_val (take 2 (drop 10 (npz_global_record (npz_local_header crc nbytes key) off key))) = 0"
  by (simp add: npz_global_record_def npz_local_header_def)

lemma npz_local_header_method_full:
  "le_val (take 2 (drop 8 (npz_local_header crc nbytes key))) = 0"
  by (simp add: npz_local_header_def)

lemma mod_2_64_mod_2_32: "(a + b mod 2 ^ 64 + c) mod 2 ^ 32 = (a + b + c) mod (2 ^ 32 :: nat)"
proof -
  have "(2 ^ 32 :: nat) dvd 2 ^ 64"
    by (rule le_imp_power_dvd) simp
  then have m: "b mod 2 ^ 64 mod 2 ^ 32 = b mod (2 ^ 32 :: nat)"
    by (rule mod_mod_cancel)
  have "(a + c + b mod 2 ^ 64) mod 2 ^ 32 = (a + c + b) mod (2 ^ 32 :: nat)"
    by (rule mod_add_cong) (simp_all only: m)
  moreover have "a + b mod 2 ^ 64 + c = a + c + b mod 2 ^ 64" and "a + b + c = a + c + b"
    by (simp_all only: ac_simps)
  ultimately show ?thesis by (simp only:)
qed

lemma length_write_at_prefix:
  "take pos (write_at f pos bytes) = take pos f @ replicate (pos - length f) (CHR 0x00)"
  and drop_write_at: "take (length bytes) (drop pos (write_at f pos bytes)) = bytes"
  by (simp_all add: write_at_def)

text \<open>What \<open>npz_save\<close> writes, with the names of the source for its parts.\<close>

lemma npz_save_written:
  assumes "(if zipfile \<noteq> None \<and> mode = ''a'' then npz_open_append (the zipfile)
            else Inr (0, 0, [])) = Inr (nrecs, gho, gh)"
    and "contents = (if zipfile \<noteq> None \<and> mode = ''a'' then the zipfile else [])"
    and "create_npy_header T shp = Inr npy_header"
    and "n = unat (foldl (\<lambda>a d. a * d) 1 shp * word_of_nat (sizeof T))"
    and "n \<le> length data"
    and "nbytes = (n + length npy_header) mod 2 ^ 64"
    and "crc = crc32 (crc32 0 (take (length npy_header mod 2 ^ 32) npy_header))
                 (take (n mod 2 ^ 32) data)"
    and "lh = npz_local_header crc nbytes (key @ ''.npy'')"
    and "gr = npz_global_record lh gho (key @ ''.npy'')"
    and "ft = npz_footer nrecs (length (gh @ gr)) (gho + nbytes + length lh)"
  shows "npz_save crc32 T zipfile key data shp mode
           = Inr (write_at contents gho (lh @ npy_header @ take n data @ gh @ gr @ ft))"
proof -
  have open_eq: "(if zipfile \<noteq> None \<and> mode = ''a''
            then (case npz_open_append (the zipfile) of
                    Inl e \<Rightarrow> Inl e
                  | Inr (nrecs, global_header_offset, global_header) \<Rightarrow>
                      Inr (nrecs, global_header_offset, global_header, the zipfile))
            else Inr (0, 0, [], [])) = Inr (nrecs, gho, gh, contents)"
    using assms(1,2) by (auto split: if_splits)
  show ?thesis
    unfolding npz_save_def Let_def open_eq
    using assms(3-10) by (simp add: Let_def)
qed

text \<open>What the locator that is written says, wherever the written bytes end up.\<close>

lemma npz_written_locator:
  assumes "nbytes = (n + m) mod 2 ^ 64"
    and "ft = npz_footer nrecs (length (gh @ gr)) (gho + nbytes + length lh)"
  shows "parse_zip_footer (pre @ lh @ hdr @ dat @ gh @ gr @ ft)
           = Inr ((nrecs + 1) mod 2 ^ 16, (length gh + length gr) mod 2 ^ 32,
                  (gho + length lh + (m + n)) mod 2 ^ 32)"
proof -
  have off: "(gho + nbytes + length lh) mod 2 ^ 32 = (gho + length lh + (m + n)) mod 2 ^ 32"
  proof -
    have "(gho + nbytes + length lh) mod 2 ^ 32 = (gho + (n + m) + length lh) mod 2 ^ 32"
      unfolding assms(1) by (rule mod_2_64_mod_2_32)
    moreover have "gho + (n + m) + length lh = gho + length lh + (m + n)"
      by (simp only: ac_simps)
    ultimately show ?thesis by (simp only:)
  qed
  have "parse_zip_footer ((pre @ lh @ hdr @ dat @ gh @ gr) @ ft)
           = Inr ((nrecs + 1) mod 2 ^ 16, length (gh @ gr) mod 2 ^ 32,
                  (gho + nbytes + length lh) mod 2 ^ 32)"
    unfolding assms(2) by (rule parse_zip_footer_npz_footer)
  then show ?thesis
    by (simp only: off length_append append_assoc)
qed

lemma take_length_append: "take (length a) (a @ b) = a"
  by simp

lemma take_drop_middle:
  "take (length b) (drop (length a) (a @ b @ c)) = b"
  by simp

text \<open>
  Claim C5, as the code has it. After a successful \<open>npz_save\<close>, in either mode, the file
  holds from the old directory offset on the new local header, the array file, the old
  directory with one new record after it, and the locator. The new entry and its record
  have compression method 0. The locator gives the number of records as the old number
  plus one in 16 bits, the size of the directory as the old size plus the length of the
  new record in 32 bits, and the offset of the directory as the old offset plus the
  length of the local header and of the entry in 32 bits; the directory stands at that
  offset. Where the values fit their fields they are the plain sums.
\<close>

theorem npz_save_locator:
  assumes "(if zipfile \<noteq> None \<and> mode = ''a'' then npz_open_append (the zipfile)
            else Inr (0, 0, [])) = Inr (nrecs, gho, gh)"
    and "contents = (if zipfile \<noteq> None \<and> mode = ''a'' then the zipfile else [])"
    and "create_npy_header T shp = Inr npy_header"
    and "n = unat (foldl (\<lambda>a d. a * d) 1 shp * word_of_nat (sizeof T))"
    and "n \<le> length data"
  shows "\<exists>lh gr ft file'.
       npz_save crc32 T zipfile key data shp mode = Inr file'
     \<and> file' = write_at contents gho (lh @ npy_header @ take n data @ gh @ gr @ ft)
     \<and> length lh = 30 + length (key @ ''.npy'')
     \<and> le_val (take 2 (drop 8 lh)) = 0
     \<and> length gr = 46 + length (key @ ''.npy'')
     \<and> le_val (take 2 (drop 10 gr)) = 0
     \<and> length ft = 22
     \<and> parse_zip_footer (lh @ npy_header @ take n data @ gh @ gr @ ft)
           = Inr ((nrecs + 1) mod 2 ^ 16,
                  (length gh + length gr) mod 2 ^ 32,
                  (gho + length lh + (length npy_header + n)) mod 2 ^ 32)
     \<and> take (length gh + length gr)
           (drop (gho + length lh + (length npy_header + n)) file') = gh @ gr
     \<and> (nrecs + 1 < 2 ^ 16 \<and> length gh + length gr < 2 ^ 32
          \<and> gho + length lh + (length npy_header + n) < 2 ^ 32 \<longrightarrow>
        parse_zip_footer (lh @ npy_header @ take n data @ gh @ gr @ ft)
           = Inr (nrecs + 1, length gh + length gr,
                  gho + length lh + (length npy_header + n)))"
proof -
  let ?key = "key @ ''.npy''"
  let ?nbytes = "(n + length npy_header) mod 2 ^ 64"
  let ?crc = "crc32 (crc32 0 (take (length npy_header mod 2 ^ 32) npy_header))
                (take (n mod 2 ^ 32) data)"
  let ?lh = "npz_local_header ?crc ?nbytes ?key"
  let ?gr = "npz_global_record ?lh gho ?key"
  let ?ft = "npz_footer nrecs (length (gh @ ?gr)) (gho + ?nbytes + length ?lh)"
  let ?written = "?lh @ npy_header @ take n data @ gh @ ?gr @ ?ft"
  let ?file = "write_at contents gho ?written"
  have save: "npz_save crc32 T zipfile key data shp mode = Inr ?file"
    using assms by (rule npz_save_written) (rule refl)+
  have foot: "parse_zip_footer ?written
           = Inr ((nrecs + 1) mod 2 ^ 16, (length gh + length ?gr) mod 2 ^ 32,
                  (gho + length ?lh + (length npy_header + n)) mod 2 ^ 32)"
    using npz_written_locator [OF refl refl, of "[]" ?lh npy_header "take n data" gh ?gr nrecs gho n]
    by simp
  have dir: "take (length gh + length ?gr)
               (drop (gho + length ?lh + (length npy_header + n)) ?file) = gh @ ?gr"
  proof -
    let ?pre = "take gho contents @ replicate (gho - length contents) (CHR 0x00)"
    let ?entry = "?lh @ npy_header @ take n data"
    have w: "?file = (?pre @ ?entry) @ (gh @ ?gr) @ (?ft @ drop (gho + length ?written) contents)"
      by (simp only: write_at_def append_assoc)
    have le: "length (?pre @ ?entry) = gho + length ?lh + (length npy_header + n)"
      using assms(5) by simp
    have "take (length (gh @ ?gr)) (drop (length (?pre @ ?entry)) ?file) = gh @ ?gr"
      unfolding w by (rule take_drop_middle)
    then have "take (length (gh @ ?gr))
           (drop (gho + length ?lh + (length npy_header + n)) ?file) = gh @ ?gr"
      unfolding le .
    then show ?thesis
      by (simp only: length_append)
  qed
  have fits: "parse_zip_footer ?written
           = Inr (nrecs + 1, length gh + length ?gr,
                  gho + length ?lh + (length npy_header + n))"
    if "nrecs + 1 < 2 ^ 16 \<and> length gh + length ?gr < 2 ^ 32
          \<and> gho + length ?lh + (length npy_header + n) < 2 ^ 32"
    using that foot by (simp only: mod_less)
  show ?thesis
    using save foot dir fits length_npz_local_header [of ?crc ?nbytes ?key]
      length_npz_global_record [of ?crc ?nbytes ?key gho]
      npz_local_header_method_full [of ?crc ?nbytes ?key]
      npz_global_record_method [of ?crc ?nbytes ?key gho]
      length_npz_footer [of nrecs "length (gh @ ?gr)" "gho + ?nbytes + length ?lh"]
    by blast
qed

lemma npy_dict_Char_3:
  "npy_dict T_Char [3] = Inr ''{'descr': '<i1', 'fortran_order': False, 'shape': (3,), }''"
  by (simp add: npy_dict_def BigEndianTest_little quote_def to_string.simps digit_char_def)

lemma padded_Char_3:
  "padded ''{'descr': '<i1', 'fortran_order': False, 'shape': (3,), }''
     = ''{'descr': '<i1', 'fortran_order': False, 'shape': (3,), }''
         @ replicate 61 space @ [newline]"
  by (simp add: padded_eq remainder_def big_header_def numpy_magic_length_def)

lemma create_npy_header_Char_3:
  "create_npy_header T_Char [3] =
     Inr (numpy_magic @ [CHR 0x01, CHR 0x00, CHR 0x77, CHR 0x00]
          @ ''{'descr': '<i1', 'fortran_order': False, 'shape': (3,), }''
          @ replicate 61 space @ [newline])"
  by (simp add: create_npy_header_def npy_dict_Char_3 padded_Char_3 big_header_def
      char_of_eq_iff)

lemma archive_inv_open:
  assumes "archive_inv file nrecs entries directory"
  shows "npz_open_append file = Inr (nrecs, length entries, directory)"
  using assms by (simp add: archive_inv_def npz_open_append_def)

lemma example_empty_archive_eq:
  "example_empty_archive = ''PK'' @ [CHR 0x05, CHR 0x06] @ le_bytes 2 0 @ le_bytes 2 0
     @ le_bytes 2 0 @ le_bytes 2 0 @ le_bytes 4 0 @ le_bytes 4 0 @ le_bytes 2 0"
  by (simp add: example_empty_archive_def le_bytes_zero replicate_add [symmetric]
      del: le_bytes_numeral)

lemma example_empty_archive_inv: "archive_inv example_empty_archive 0 [] []"
proof -
  let ?f = "example_empty_archive"
  have l: "length ?f = 22"
    by (simp add: example_empty_archive_def)
  have "take 2 (drop 4 ?f) = le_bytes 2 0" "take 2 (drop 6 ?f) = le_bytes 2 0"
    "take 2 (drop 8 ?f) = le_bytes 2 0" "take 2 (drop 10 ?f) = le_bytes 2 0"
    "take 4 (drop 12 ?f) = le_bytes 4 0" "take 4 (drop 16 ?f) = le_bytes 4 0"
    "take 2 (drop 20 ?f) = le_bytes 2 0"
    unfolding example_empty_archive_eq by (simp_all del: le_bytes_numeral)
  then have "parse_zip_footer ?f = Inr (0, 0, 0)"
    by (simp add: parse_zip_footer_def l zip_footer_length_def le_val_le_bytes_0 Let_def
        del: le_bytes_numeral)
  then show ?thesis
    by (simp add: archive_inv_def l zip_footer_length_def)
qed

lemma parse_zip_footer_suffix:
  assumes "zip_footer_length \<le> length w"
  shows "parse_zip_footer (pre @ w) = parse_zip_footer w"
proof -
  have "drop (length (pre @ w) - zip_footer_length) (pre @ w)
          = drop (length w - zip_footer_length) w"
    using assms by simp
  moreover have "(length (pre @ w) < zip_footer_length) = (length w < zip_footer_length)"
    using assms by simp
  ultimately show ?thesis
    by (simp only: parse_zip_footer_def)
qed

lemma length_concat_replicate: "length (concat (replicate k xs)) = k * length xs"
  by (induction k) simp_all

lemma write_at_archive:
  assumes "archive_inv old nrecs entries directory"
    and "length directory + zip_footer_length \<le> length w"
  shows "write_at old (length entries) w = entries @ w"
proof -
  from assms(1) have "take (length entries) old = entries"
    and "length old = length entries + length directory + zip_footer_length"
    by (simp_all add: archive_inv_def)
  with assms(2) show ?thesis
    by (simp add: write_at_def)
qed

text \<open>Appending to an archive that is made of entries, a directory and a locator that
  describes them gives such an archive again, as long as the new values fit the fields
  of the locator.\<close>

lemma archive_inv_append:
  assumes inv: "archive_inv old nrecs entries directory"
    and hdr: "create_npy_header T shp = Inr npy_header"
    and n: "n = unat (foldl (\<lambda>a d. a * d) 1 shp * word_of_nat (sizeof T))"
    and data: "n \<le> length data"
    and fits: "nrecs + 1 < 2 ^ 16"
      "length directory + (46 + length (key @ ''.npy'')) < 2 ^ 32"
      "length entries + (30 + length (key @ ''.npy'')) + (length npy_header + n) < 2 ^ 32"
  shows "\<exists>lh gr file'.
       npz_save crc32 T (Some old) key data shp ''a'' = Inr file'
     \<and> length lh = 30 + length (key @ ''.npy'')
     \<and> length gr = 46 + length (key @ ''.npy'')
     \<and> archive_inv file' (nrecs + 1) (entries @ lh @ npy_header @ take n data)
           (directory @ gr)"
proof -
  let ?gho = "length entries"
  let ?key = "key @ ''.npy''"
  let ?nbytes = "(n + length npy_header) mod 2 ^ 64"
  let ?crc = "crc32 (crc32 0 (take (length npy_header mod 2 ^ 32) npy_header))
                (take (n mod 2 ^ 32) data)"
  let ?lh = "npz_local_header ?crc ?nbytes ?key"
  let ?gr = "npz_global_record ?lh ?gho ?key"
  let ?ft = "npz_footer nrecs (length (directory @ ?gr)) (?gho + ?nbytes + length ?lh)"
  let ?entry = "?lh @ npy_header @ take n data"
  let ?written = "?lh @ npy_header @ take n data @ directory @ ?gr @ ?ft"
  let ?file = "write_at old ?gho ?written"
  have op: "(if Some old \<noteq> None \<and> ''a'' = ''a'' then npz_open_append (the (Some old))
            else Inr (0, 0, [])) = Inr (nrecs, ?gho, directory)"
    using archive_inv_open [OF inv] by simp
  have co: "old = (if Some old \<noteq> None \<and> ''a'' = ''a'' then the (Some old) else [])"
    by simp
  have s: "npz_save crc32 T (Some old) key data shp ''a'' = Inr ?file"
    using op co hdr n data by (rule npz_save_written) (rule refl)+
  have ll: "length ?lh = 30 + length ?key" by (rule length_npz_local_header)
  have lr: "length ?gr = 46 + length ?key" by (rule length_npz_global_record)
  have lf: "length ?ft = 22" by (rule length_npz_footer)
  have ln: "length (take n data) = n" using data by simp
  have "length directory + zip_footer_length \<le> length ?written"
    using lf by (simp add: zip_footer_length_def)
  from write_at_archive [OF inv this] have w: "?file = entries @ ?written" .
  have q: "parse_zip_footer (entries @ ?written)
           = Inr ((nrecs + 1) mod 2 ^ 16, (length directory + length ?gr) mod 2 ^ 32,
                  (?gho + length ?lh + (length npy_header + n)) mod 2 ^ 32)"
    by (rule npz_written_locator [OF refl refl])
  have m1: "(nrecs + 1) mod 2 ^ 16 = nrecs + 1"
    using fits(1) by (rule mod_less)
  have m2: "(length directory + length ?gr) mod 2 ^ 32 = length (directory @ ?gr)"
    using fits(2) by (simp add: length_npz_global_record)
  have le: "length (entries @ ?entry) = ?gho + length ?lh + (length npy_header + n)"
    by (simp only: length_append ln add.assoc)
  have m3: "(?gho + length ?lh + (length npy_header + n)) mod 2 ^ 32 = length (entries @ ?entry)"
    using fits(3) data by (simp add: length_npz_local_header)
  have pf: "parse_zip_footer ?file
           = Inr (nrecs + 1, length (directory @ ?gr), length (entries @ ?entry))"
    by (simp only: w q m1 m2 m3)
  have sp: "entries @ ?written = (entries @ ?entry) @ (directory @ ?gr) @ ?ft"
    by (simp only: append_assoc)
  have t1: "take (length (entries @ ?entry)) ?file = entries @ ?entry"
    unfolding w sp by (rule take_length_append)
  have t2: "take (length (directory @ ?gr)) (drop (length (entries @ ?entry)) ?file)
              = directory @ ?gr"
    unfolding w sp by (rule take_drop_middle)
  have t3: "length ?file
              = length (entries @ ?entry) + length (directory @ ?gr) + zip_footer_length"
    unfolding w sp by (simp add: length_npz_footer zip_footer_length_def)
  have "archive_inv ?file (nrecs + 1) (entries @ ?entry) (directory @ ?gr)"
    by (simp only: archive_inv_def t1 t2 t3 pf simp_thms)
  with s ll lr show ?thesis by blast
qed

lemma archive_inv_footer:
  "archive_inv file nrecs entries directory \<Longrightarrow>
     parse_zip_footer file = Inr (nrecs, length directory, length entries)"
  by (simp add: archive_inv_def)

theorem npz_save_locator_witness:
  "\<exists>lh gr ft file'.
      npz_save example_crc32 T_Char (Some example_empty_archive) ''x'' ''abc'' [3] ''a'' = Inr file'
    \<and> file' = write_at example_empty_archive 0
                (lh @ projr (create_npy_header T_Char [3]) @ ''abc'' @ [] @ gr @ ft)
    \<and> length lh = 35 \<and> le_val (take 2 (drop 8 lh)) = 0
    \<and> length gr = 51 \<and> length ft = 22
    \<and> parse_zip_footer (lh @ projr (create_npy_header T_Char [3]) @ ''abc'' @ [] @ gr @ ft)
          = Inr (1, 51, 167)"
proof -
  have op: "(if Some example_empty_archive \<noteq> None \<and> ''a'' = ''a''
            then npz_open_append (the (Some example_empty_archive))
            else Inr (0, 0, [])) = Inr (0, 0, [])"
    using archive_inv_open [OF example_empty_archive_inv] by simp
  have co: "example_empty_archive =
      (if Some example_empty_archive \<noteq> None \<and> ''a'' = ''a''
       then the (Some example_empty_archive) else [])"
    by simp
  have n: "3 = unat (foldl (\<lambda>a d. a * d) 1 [3 :: size_t] * word_of_nat (sizeof T_Char))"
    by simp
  have d: "3 \<le> length ''abc''" by simp
  have h: "create_npy_header T_Char [3] = Inr (projr (create_npy_header T_Char [3]))"
    by (simp add: create_npy_header_Char_3)
  have lh: "length (projr (create_npy_header T_Char [3])) = 129"
    by (simp add: create_npy_header_Char_3 numpy_magic_def)
  let ?h = "projr (create_npy_header T_Char [3])"
  from npz_save_locator [OF op co h n d, of example_crc32 "''x''"]
  obtain l r f fl where
    s: "npz_save example_crc32 T_Char (Some example_empty_archive) ''x'' ''abc'' [3] ''a'' = Inr fl"
    and w: "fl = write_at example_empty_archive 0 (l @ ?h @ take 3 ''abc'' @ [] @ r @ f)"
    and ll: "length l = 30 + length (''x'' @ ''.npy'')"
    and lm: "le_val (take 2 (drop 8 l)) = 0"
    and lr: "length r = 46 + length (''x'' @ ''.npy'')"
    and lf: "length f = 22"
    and p: "parse_zip_footer (l @ ?h @ take 3 ''abc'' @ [] @ r @ f)
          = Inr ((0 + 1) mod 2 ^ 16, (length ([] :: byte list) + length r) mod 2 ^ 32,
                 (0 + length l + (length ?h + 3)) mod 2 ^ 32)"
    by blast
  have "parse_zip_footer (l @ ?h @ ''abc'' @ [] @ r @ f) = Inr (1, 51, 167)"
    using p ll lr lh by simp
  with s w ll lm lr lf show ?thesis
    by (intro exI [of _ l] exI [of _ r] exI [of _ f] exI [of _ fl]) simp
qed

lemma example_full_archive_inv:
  "archive_inv example_full_archive 65535
     (concat (replicate 65535 (npz_local_header 0 0 [])))
     (concat (replicate 65535 (npz_global_record (npz_local_header 0 0 []) 0 [])))"
proof -
  let ?e = "concat (replicate 65535 (npz_local_header 0 0 []))"
  let ?d = "concat (replicate 65535 (npz_global_record (npz_local_header 0 0 []) 0 []))"
  have le: "length ?e = 65535 * 30" and ld: "length ?d = 65535 * 46"
    by (simp_all only: length_concat_replicate length_npz_local_header length_npz_global_record)
      simp_all
  have "parse_zip_footer ((?e @ ?d) @ npz_footer 65534 (65535 * 46) (65535 * 30))
          = Inr ((65534 + 1) mod 2 ^ 16, (65535 * 46) mod 2 ^ 32, (65535 * 30) mod 2 ^ 32)"
    by (rule parse_zip_footer_npz_footer)
  then have "parse_zip_footer example_full_archive = Inr (65535, length ?d, length ?e)"
    unfolding example_full_archive_def le ld by simp
  moreover have "length example_full_archive = length ?e + length ?d + zip_footer_length"
    by (simp add: example_full_archive_def length_npz_footer zip_footer_length_def)
  moreover have "take (length ?e) example_full_archive = ?e"
    and "take (length ?d) (drop (length ?e) example_full_archive) = ?d"
    by (simp_all add: example_full_archive_def)
  ultimately show ?thesis
    by (simp only: archive_inv_def simp_thms)
qed

text \<open>
  Claim C5 as it is stated fails where a value does not fit its field. The locator of an
  archive of 65535 entries gives 65535 records; after one more entry is appended, the
  locator that is written gives none.
\<close>

theorem npz_save_count_counterexample:
  "parse_zip_footer example_full_archive = Inr (65535, 3014610, 1966050)
   \<and> (\<exists>file'. npz_save example_crc32 T_Char (Some example_full_archive) ''x'' ''abc'' [3] ''a''
                 = Inr file'
        \<and> parse_zip_footer file' = Inr (0, 3014661, 1966217))"
proof -
  let ?e = "concat (replicate 65535 (npz_local_header 0 0 []))"
  let ?d = "concat (replicate 65535 (npz_global_record (npz_local_header 0 0 []) 0 []))"
  let ?h = "projr (create_npy_header T_Char [3])"
  note inv = example_full_archive_inv
  have le: "length ?e = 1966050" and ld: "length ?d = 3014610"
    by (simp_all only: length_concat_replicate length_npz_local_header length_npz_global_record)
      simp_all
  have p0: "parse_zip_footer example_full_archive = Inr (65535, 3014610, 1966050)"
    using archive_inv_footer [OF inv] by (simp only: le ld)
  have op: "(if Some example_full_archive \<noteq> None \<and> ''a'' = ''a''
            then npz_open_append (the (Some example_full_archive))
            else Inr (0, 0, [])) = Inr (65535, length ?e, ?d)"
    using archive_inv_open [OF inv] by simp
  have co: "example_full_archive =
      (if Some example_full_archive \<noteq> None \<and> ''a'' = ''a''
       then the (Some example_full_archive) else [])"
    by simp
  have n: "3 = unat (foldl (\<lambda>a d. a * d) 1 [3 :: size_t] * word_of_nat (sizeof T_Char))"
    by simp
  have d: "3 \<le> length ''abc''" by simp
  have h: "create_npy_header T_Char [3] = Inr ?h"
    by (simp add: create_npy_header_Char_3)
  have lh: "length ?h = 129"
    by (simp add: create_npy_header_Char_3 numpy_magic_def)
  let ?key = "''x'' @ ''.npy''"
  let ?nbytes = "(3 + length ?h) mod 2 ^ 64"
  let ?crc = "example_crc32 (example_crc32 0 (take (length ?h mod 2 ^ 32) ?h))
                (take (3 mod 2 ^ 32) ''abc'')"
  let ?lh = "npz_local_header ?crc ?nbytes ?key"
  let ?gr = "npz_global_record ?lh (length ?e) ?key"
  let ?ft = "npz_footer 65535 (length (?d @ ?gr)) (length ?e + ?nbytes + length ?lh)"
  let ?w = "?lh @ ?h @ take 3 ''abc'' @ ?d @ ?gr @ ?ft"
  let ?fl = "write_at example_full_archive (length ?e) ?w"
  have s: "npz_save example_crc32 T_Char (Some example_full_archive) ''x'' ''abc'' [3] ''a''
             = Inr ?fl"
    using op co h n d by (rule npz_save_written) (rule refl)+
  have ll: "length ?lh = 35" by (simp add: length_npz_local_header)
  have lr: "length ?gr = 51" by (simp add: length_npz_global_record)
  have lf: "length ?ft = 22" by (rule length_npz_footer)
  have "length ?d + zip_footer_length \<le> length ?w"
    using lf by (simp add: zip_footer_length_def)
  from write_at_archive [OF inv this] have w: "?fl = ?e @ ?w" .
  have q: "parse_zip_footer (?e @ ?w)
           = Inr ((65535 + 1) mod 2 ^ 16, (length ?d + length ?gr) mod 2 ^ 32,
                  (length ?e + length ?lh + (length ?h + 3)) mod 2 ^ 32)"
    by (rule npz_written_locator [OF refl refl])
  have m1: "(65535 + 1) mod 2 ^ 16 = (0 :: nat)" by simp
  have m2: "(length ?d + length ?gr) mod 2 ^ 32 = 3014661"
    by (simp add: ld length_npz_global_record)
  have m3: "(length ?e + length ?lh + (length ?h + 3)) mod 2 ^ 32 = 1966217"
    by (simp add: le lh length_npz_local_header)
  have "parse_zip_footer ?fl = Inr (0, 3014661, 1966217)"
    by (simp only: w q m1 m2 m3)
  with s p0 show ?thesis by blast
qed

section \<open>Shapes with a long text\<close>

lemma to_string_Suc_0: "to_string (Suc 0) = ''1''"
  by (simp add: to_string.simps digit_char_def)

lemma dict_dims_replicate_1: "dict_dims (replicate k 1) = concat (replicate k '', 1'')"
  by (simp add: dict_dims_def to_string_Suc_0 map_replicate_const [symmetric])

lemma dict_prefix_Double:
  "dict_prefix T_Double = ''{'descr': '<f8', 'fortran_order': False, 'shape': (''"
  by (simp add: dict_prefix_def quote_def BigEndianTest_little to_string.simps digit_char_def)

lemma npy_dict_Double_ones:
  "npy_dict T_Double (replicate (Suc (Suc k)) 1) =
     Inr (dict_prefix T_Double @ ''1'' @ concat (replicate (Suc k) '', 1'') @ ''), }'')"
proof -
  have "npy_dict T_Double (1 # replicate (Suc k) 1) =
     Inr (dict_prefix T_Double @ to_string (unat (1 :: size_t)) @ dict_dims (replicate (Suc k) 1)
          @ (if replicate (Suc k) (1 :: size_t) = [] then '','' else []) @ ''), }'')"
    by (rule npy_dict_Cons)
  then show ?thesis
    by (simp add: to_string_Suc_0 dict_dims_replicate_1 [of "Suc k", simplified])
qed

lemma length_dict_Double_ones:
  "length (dict_prefix T_Double @ ''1'' @ concat (replicate (Suc k) '', 1'') @ ''), }'')
     = 59 + 3 * k"
  by (simp add: dict_prefix_Double length_concat_replicate)

lemma foldl_mult_replicate_1: "foldl (\<lambda>a d. a * d) (1 :: size_t) (replicate k 1) = 1"
  by (induction k) simp_all

lemma create_npy_header_small:
  assumes "npy_dict T shp = Inr dict" and "\<not> big_header dict"
  shows "create_npy_header T shp =
     Inr (numpy_magic @ [CHR 0x01, CHR 0x00]
          @ le_bytes 2 (length (padded dict) mod 2 ^ 16) @ padded dict)"
  using assms by (simp add: create_npy_header_def Let_def del: le_bytes_numeral)

lemma create_npy_header_big:
  assumes "npy_dict T shp = Inr dict" and "big_header dict"
  shows "create_npy_header T shp =
     Inr (numpy_magic @ [CHR 0x02, CHR 0x00]
          @ le_bytes 4 (length (padded dict) mod 2 ^ 32) @ padded dict)"
  using assms by (simp add: create_npy_header_def Let_def del: le_bytes_numeral)

text \<open>
  Claim C6. The dictionary text is the dictionary as it stands before padding, with the
  newline that ends it. While it fits 16 bits, \<open>create_npy_header\<close> writes major
  version 1, minor version 0 and a length field of two bytes, and the text starts at
  offset 10; exactly when it is longer than 65535 bytes the header has major version 2
  and a length field of four bytes, and the text starts at offset 12. A shape of 21827
  ones gives a dictionary text of 65535 bytes and version 1.0; one more dimension gives
  version 2.0.
\<close>

theorem create_npy_header_version:
  assumes "npy_dict T shp = Inr dict"
  shows "\<exists>h. create_npy_header T shp = Inr h
     \<and> take 6 h = numpy_magic \<and> h ! 7 = CHR 0x00
     \<and> (if length (dict @ [newline]) \<le> 65535
          then h ! 6 = CHR 0x01
             \<and> take 2 (drop 8 h) = le_bytes 2 (length (padded dict) mod 2 ^ 16)
             \<and> drop 10 h = padded dict
          else h ! 6 = CHR 0x02
             \<and> take 4 (drop 8 h) = le_bytes 4 (length (padded dict) mod 2 ^ 32)
             \<and> drop 12 h = padded dict)
     \<and> take (length dict) (padded dict) = dict \<and> last (padded dict) = newline"
proof -
  have p: "take (length dict) (padded dict) = dict" "last (padded dict) = newline"
    by (simp_all add: padded_eq)
  show ?thesis
  proof (cases "length (dict @ [newline]) \<le> 65535")
    case True
    then have b: "\<not> big_header dict" by (simp add: big_header_def)
    let ?h = "numpy_magic @ [CHR 0x01, CHR 0x00]
                @ le_bytes 2 (length (padded dict) mod 2 ^ 16) @ padded dict"
    have "create_npy_header T shp = Inr ?h"
      using assms b by (rule create_npy_header_small)
    moreover have "take 6 ?h = numpy_magic" "?h ! 7 = CHR 0x00" "?h ! 6 = CHR 0x01"
      "take 2 (drop 8 ?h) = le_bytes 2 (length (padded dict) mod 2 ^ 16)"
      "drop 10 ?h = padded dict"
      by (simp_all add: numpy_magic_def del: le_bytes_numeral)
    ultimately show ?thesis
      using True p by (intro exI [of _ ?h]) (simp only: if_True simp_thms)
  next
    case False
    then have b: "big_header dict" by (simp add: big_header_def)
    let ?h = "numpy_magic @ [CHR 0x02, CHR 0x00]
                @ le_bytes 4 (length (padded dict) mod 2 ^ 32) @ padded dict"
    have "create_npy_header T shp = Inr ?h"
      using assms b by (rule create_npy_header_big)
    moreover have "take 6 ?h = numpy_magic" "?h ! 7 = CHR 0x00" "?h ! 6 = CHR 0x02"
      "take 4 (drop 8 ?h) = le_bytes 4 (length (padded dict) mod 2 ^ 32)"
      "drop 12 ?h = padded dict"
      by (simp_all add: numpy_magic_def del: le_bytes_numeral)
    ultimately show ?thesis
      using False p by (intro exI [of _ ?h]) (simp only: if_False simp_thms)
  qed
qed

lemma num_21827: "(21827 :: nat) = Suc (Suc 21825)" and num_21828: "(21828 :: nat) = Suc (Suc 21826)"
  by simp_all

lemma remainder_65534: "length d = 65534 \<Longrightarrow> remainder d = 57"
  by (simp add: remainder_def big_header_def numpy_magic_length_def)

lemma remainder_65537: "length d = 65537 \<Longrightarrow> remainder d = 52"
  by (simp add: remainder_def big_header_def numpy_magic_length_def)

theorem create_npy_header_version_witness:
  "(\<exists>h. create_npy_header T_Double (replicate 21827 1) = Inr h
      \<and> h ! 6 = CHR 0x01 \<and> h ! 7 = CHR 0x00
      \<and> take 2 (drop 8 h) = [CHR 0x37, CHR 0x00] \<and> length (drop 10 h) = 65591)
   \<and> (\<exists>h. create_npy_header T_Double (replicate 21828 1) = Inr h
      \<and> h ! 6 = CHR 0x02 \<and> h ! 7 = CHR 0x00
      \<and> take 4 (drop 8 h) = [CHR 0x35, CHR 0x00, CHR 0x01, CHR 0x00]
      \<and> length (drop 12 h) = 65589)"
proof
  let ?d = "dict_prefix T_Double @ ''1'' @ concat (replicate (Suc 21825) '', 1'') @ ''), }''"
  have d: "npy_dict T_Double (replicate 21827 1) = Inr ?d"
    unfolding num_21827 by (rule npy_dict_Double_ones)
  have l: "length ?d = 65534"
    by (simp only: length_dict_Double_ones)
  have lp: "length (padded ?d) = 65591"
    by (simp only: length_padded remainder_65534 [OF l] l)
  have small: "length (?d @ [newline]) \<le> 65535"
    using l by simp
  from create_npy_header_version [OF d] obtain h where
    c: "create_npy_header T_Double (replicate 21827 1) = Inr h" and h7: "h ! 7 = CHR 0x00"
    and i: "if length (?d @ [newline]) \<le> 65535
          then h ! 6 = CHR 0x01
             \<and> take 2 (drop 8 h) = le_bytes 2 (length (padded ?d) mod 2 ^ 16)
             \<and> drop 10 h = padded ?d
          else h ! 6 = CHR 0x02
             \<and> take 4 (drop 8 h) = le_bytes 4 (length (padded ?d) mod 2 ^ 32)
             \<and> drop 12 h = padded ?d"
    by blast
  from i small have h6: "h ! 6 = CHR 0x01"
    and t: "take 2 (drop 8 h) = le_bytes 2 (length (padded ?d) mod 2 ^ 16)"
    and dr: "drop 10 h = padded ?d"
    by (simp_all only: if_True)
  have "le_bytes 2 (65591 mod 2 ^ 16) = [CHR 0x37, CHR 0x00]"
    by (simp add: char_of_eq_iff)
  with c h6 h7 t dr lp
  show "\<exists>h. create_npy_header T_Double (replicate 21827 1) = Inr h
      \<and> h ! 6 = CHR 0x01 \<and> h ! 7 = CHR 0x00
      \<and> take 2 (drop 8 h) = [CHR 0x37, CHR 0x00] \<and> length (drop 10 h) = 65591"
    by (intro exI [of _ h]) (simp only: simp_thms)
next
  let ?d = "dict_prefix T_Double @ ''1'' @ concat (replicate (Suc 21826) '', 1'') @ ''), }''"
  have d: "npy_dict T_Double (replicate 21828 1) = Inr ?d"
    unfolding num_21828 by (rule npy_dict_Double_ones)
  have l: "length ?d = 65537"
    by (simp only: length_dict_Double_ones)
  have lp: "length (padded ?d) = 65589"
    by (simp only: length_padded remainder_65537 [OF l] l)
  have big: "\<not> length (?d @ [newline]) \<le> 65535"
    using l by simp
  from create_npy_header_version [OF d] obtain h where
    c: "create_npy_header T_Double (replicate 21828 1) = Inr h" and h7: "h ! 7 = CHR 0x00"
    and i: "if length (?d @ [newline]) \<le> 65535
          then h ! 6 = CHR 0x01
             \<and> take 2 (drop 8 h) = le_bytes 2 (length (padded ?d) mod 2 ^ 16)
             \<and> drop 10 h = padded ?d
          else h ! 6 = CHR 0x02
             \<and> take 4 (drop 8 h) = le_bytes 4 (length (padded ?d) mod 2 ^ 32)
             \<and> drop 12 h = padded ?d"
    by blast
  from i big have h6: "h ! 6 = CHR 0x02"
    and t: "take 4 (drop 8 h) = le_bytes 4 (length (padded ?d) mod 2 ^ 32)"
    and dr: "drop 12 h = padded ?d"
    by (simp_all only: if_False)
  have "le_bytes 4 (65589 mod 2 ^ 32) = [CHR 0x35, CHR 0x00, CHR 0x01, CHR 0x00]"
    by (simp add: char_of_eq_iff)
  with c h6 h7 t dr lp
  show "\<exists>h. create_npy_header T_Double (replicate 21828 1) = Inr h
      \<and> h ! 6 = CHR 0x02 \<and> h ! 7 = CHR 0x00
      \<and> take 4 (drop 8 h) = [CHR 0x35, CHR 0x00, CHR 0x01, CHR 0x00]
      \<and> length (drop 12 h) = 65589"
    by (intro exI [of _ h]) (simp only: simp_thms)
qed

text \<open>A header of version 1.0 whose length field names a text that does not end in a
  newline is refused.\<close>

lemma parse_npy_header_v1_no_newline:
  assumes "at s (numpy_magic @ [CHR 0x01, CHR 0x00] @ le_bytes 2 n @ tx @ rest)"
    and "length tx = n" and "n < 2 ^ 16" and "tx \<noteq> []" and "last tx \<noteq> newline"
  shows "parse_npy_header s = Inl Failed_To_Read_Header"
proof -
  from parse_npy_header_prefix [OF assms(1)] obtain s3 where
    a3: "at s3 (le_bytes 2 n @ tx @ rest)"
    and eq: "parse_npy_header s =
       (case is_read s3 2 of
          (got_len, s4) \<Rightarrow> read_header_text (le_val (store (le_bytes 4 0) got_len)) s4)"
    by auto
  from is_read_at [OF a3, of 2] obtain s4 where
    r4: "is_read s3 2 = (le_bytes 2 n, s4)" and a4: "at s4 (tx @ rest)"
    by auto
  have v: "le_val (store (le_bytes 4 0) (le_bytes 2 n)) = n"
    using assms(3) by (simp only: le_val_store_2 length_le_bytes le_val_le_bytes) simp
  from read_header_text_no_newline [OF a4 assms(2,4,5)] eq r4 v show ?thesis
    by simp
qed

text \<open>
  Claim C2. Saving an array and loading the file should give the array back. A
  \<open>double\<close> array whose shape is 21827 ones has a dictionary of 65534 bytes, so
  \<open>create_npy_header\<close> keeps version 1.0; the padded text is 65591 bytes long, and the
  two-byte length field holds 55. \<open>npy_save\<close> writes the file, and \<open>npy_load\<close> of it
  reads 55 bytes of text, finds no newline at their end and fails.
\<close>

theorem npy_save_load_long_shape:
  "\<exists>file. npy_save T_Double None ''abcdefgh'' (replicate 21827 1) ''w'' = Inr file
      \<and> npy_load (Some file) = Inl Failed_To_Read_Header"
proof -
  let ?c = "concat (replicate 21825 '', 1'')"
  let ?d = "dict_prefix T_Double @ ''1'' @ concat (replicate (Suc 21825) '', 1'') @ ''), }''"
  let ?tx = "dict_prefix T_Double @ ''1, 1''"
  let ?rest = "?c @ ''), }'' @ replicate 56 space @ [newline] @ ''abcdefgh''"
  let ?file = "numpy_magic @ [CHR 0x01, CHR 0x00] @ le_bytes 2 55 @ ?tx @ ?rest"
  have d: "npy_dict T_Double (replicate 21827 1) = Inr ?d"
    unfolding num_21827 by (rule npy_dict_Double_ones)
  have l: "length ?d = 65534"
    by (simp only: length_dict_Double_ones)
  have p: "padded ?d = ?d @ replicate 56 space @ [newline]"
    by (simp only: padded_eq remainder_65534 [OF l]) simp
  have lp: "length (padded ?d) = 65591"
    by (simp only: length_padded remainder_65534 [OF l] l)
  have nb: "\<not> big_header ?d"
    using l by (simp only: big_header_def)
  have h: "create_npy_header T_Double (replicate 21827 1)
             = Inr (numpy_magic @ [CHR 0x01, CHR 0x00] @ le_bytes 2 55 @ padded ?d)"
  proof -
    have "(65591 :: nat) mod 2 ^ 16 = 55" by simp
    with create_npy_header_small [OF d nb] show ?thesis
      by (simp only: lp)
  qed
  have n: "unat (word_of_nat (sizeof T_Double) * foldl (\<lambda>a d. a * d) (1 :: size_t) (replicate 21827 1)) = 8"
    by (simp only: foldl_mult_replicate_1) simp
  have s: "npy_save T_Double None ''abcdefgh'' (replicate 21827 1) ''w''
             = Inr ((numpy_magic @ [CHR 0x01, CHR 0x00] @ le_bytes 2 55 @ padded ?d) @ ''abcdefgh'')"
  proof -
    have "write_at [] 0 hd = hd" for hd :: "byte list"
      by (simp add: write_at_def)
    moreover have "take 8 ''abcdefgh'' = ''abcdefgh''" and "\<not> length ''abcdefgh'' < 8"
      by simp_all
    ultimately show ?thesis
      unfolding npy_save_def Let_def
      by (simp only: option.simps simp_thms if_False sum.case prod.case h n)
  qed
  have f: "(numpy_magic @ [CHR 0x01, CHR 0x00] @ le_bytes 2 55 @ padded ?d) @ ''abcdefgh'' = ?file"
  proof -
    have c: "concat (replicate (Suc 21825) '', 1'') = '', 1'' @ ?c"
      by (simp only: replicate_Suc concat.simps)
    show ?thesis
      unfolding p unfolding c by (simp only: append_assoc append_Cons append_Nil)
  qed
  have "at (open_stream ?file) ?file" by (rule at_open_stream)
  moreover have "length ?tx = 55" "?tx \<noteq> []" "last ?tx \<noteq> newline"
    by (simp_all add: dict_prefix_Double newline_def)
  ultimately have "parse_npy_header (open_stream ?file) = Inl Failed_To_Read_Header"
    by (intro parse_npy_header_v1_no_newline [where n = 55 and tx = ?tx and rest = ?rest]) simp_all
  then have "npy_load (Some ?file) = Inl Failed_To_Read_Header"
    by (simp add: npy_load_def load_the_npy_file_def open_stream_def)
  with s f show ?thesis
    by (intro exI [of _ ?file]) (simp only: simp_thms)
qed

section \<open>Parsing back the header that is built\<close>

lemma take_eq_length: "take (length p) xs = p \<Longrightarrow> length p \<le> length xs"
proof -
  assume "take (length p) xs = p"
  then have "length (take (length p) xs) = length p" by simp
  then show ?thesis by simp
qed

lemma str_find_Some_length: "str_find xs pat = Some j \<Longrightarrow> length pat \<le> length xs"
proof (induction xs arbitrary: j)
  case Nil
  then show ?case by (simp split: if_splits)
next
  case (Cons x xs)
  show ?case
  proof (cases "take (length pat) (x # xs) = pat")
    case True
    then show ?thesis by (rule take_eq_length)
  next
    case False
    with Cons.prems obtain k where "str_find xs pat = Some k" by auto
    from Cons.IH [OF this] show ?thesis by simp
  qed
qed

lemma str_find_append_left:
  "str_find a pat = Some i \<Longrightarrow> str_find (a @ b) pat = Some i"
proof (induction a arbitrary: i)
  case Nil
  then show ?case by (cases b) (simp_all split: if_splits)
next
  case (Cons c cs)
  have "take (length pat) (xs @ b) = take (length pat) xs" if "length pat \<le> length xs"
    for xs :: string
    using that by simp
  from this [OF str_find_Some_length [OF Cons.prems]]
  have t: "take (length pat) ((c # cs) @ b) = take (length pat) (c # cs)" .
  show ?case
  proof (cases "take (length pat) (c # cs) = pat")
    case True
    with Cons.prems t show ?thesis by simp
  next
    case False
    with Cons.prems obtain j where j: "str_find cs pat = Some j" and i: "i = Suc j"
      by auto
    from False t Cons.IH [OF j] i show ?thesis by simp
  qed
qed

lemma str_find_char:
  "c \<notin> set a \<Longrightarrow> str_find (a @ c # b) [c] = Some (length a)"
  by (induction a) auto

subsection \<open>Digits\<close>

lemma digit_char_is_digit: "d < 10 \<Longrightarrow> is_digit (digit_char d)"
proof -
  assume "d < 10"
  then have "d \<in> {0, 1, 2, 3, 4, 5, 6, 7, 8, 9}" by auto
  then show ?thesis
    by (auto simp: is_digit_def digit_char_def)
qed

lemma digit_val_digit_char: "d < 10 \<Longrightarrow> digit_val (digit_char d) = d"
proof -
  assume "d < 10"
  then have "d \<in> {0, 1, 2, 3, 4, 5, 6, 7, 8, 9}" by auto
  then show ?thesis
    by (auto simp: digit_val_def digit_char_def)
qed

lemma to_string_not_Nil: "to_string n \<noteq> []"
  by (subst to_string.simps) simp

lemma to_string_digits: "c \<in> set (to_string n) \<Longrightarrow> is_digit c"
proof (induction n rule: to_string.induct)
  case (1 n)
  show ?case
  proof (cases "n < 10")
    case True
    with "1.prems" show ?thesis
      by (subst (asm) to_string.simps) (simp add: digit_char_is_digit)
  next
    case False
    with "1.prems" have "c \<in> set (to_string (n div 10)) \<or> c = digit_char (n mod 10)"
      by (subst (asm) to_string.simps) auto
    with "1.IH" [OF False] show ?thesis
      by (auto simp: digit_char_is_digit)
  qed
qed

lemma decimal_snoc: "decimal (ds @ [c]) = 10 * decimal ds + digit_val c"
  by (simp add: decimal_def)

lemma decimal_to_string: "decimal (to_string n) = n"
proof (induction n rule: to_string.induct)
  case (1 n)
  show ?case
  proof (cases "n < 10")
    case True
    then show ?thesis
      by (subst to_string.simps) (simp add: decimal_def digit_val_digit_char)
  next
    case False
    have "decimal (to_string n) = 10 * decimal (to_string (n div 10)) + digit_val (digit_char (n mod 10))"
      using False by (subst to_string.simps) (simp add: decimal_snoc)
    with "1.IH" [OF False] show ?thesis
      by (simp add: digit_val_digit_char)
  qed
qed

lemma is_digit_not_space: "is_digit c \<Longrightarrow> \<not> isspace c"
  by (auto simp: is_digit_def isspace_def)

lemma is_digit_not_sign: "is_digit c \<Longrightarrow> c \<noteq> CHR ''-'' \<and> c \<noteq> CHR ''+''"
  by (auto simp: is_digit_def)

lemma stoul_digits:
  assumes "ds \<noteq> []" and "\<forall>c\<in>set ds. is_digit c" and "decimal ds < 2 ^ 64"
    and "r = [] \<or> \<not> is_digit (hd r)"
  shows "stoul (ds @ r) = Inr (decimal ds)"
proof -
  obtain d ds' where ds: "ds = d # ds'" using assms(1) by (cases ds) auto
  with assms(2) have d: "is_digit d" by simp
  have s1: "dropWhile isspace (ds @ r) = ds @ r"
    using ds d by (simp add: is_digit_not_space)
  have tw: "takeWhile is_digit (ds @ r) = ds"
  proof (cases r)
    case Nil
    with assms(2) show ?thesis by simp
  next
    case (Cons x xs)
    with assms(4) have "\<not> is_digit x" by simp
    with Cons assms(2) show ?thesis
      by (simp add: takeWhile_append2 [of ds is_digit])
  qed
  have hd: "hd (ds @ r) = d" "ds @ r \<noteq> []" using ds by simp_all
  from is_digit_not_sign [OF d] have ns: "d \<noteq> CHR ''-''" "d \<noteq> CHR ''+''" by simp_all
  show ?thesis
    unfolding stoul_def s1 Let_def
    using hd ns tw assms(1,3) by simp
qed

lemma stoul_to_string:
  assumes "n < 2 ^ 64" and "r = [] \<or> \<not> is_digit (hd r)"
  shows "stoul (to_string n @ r) = Inr n"
  using stoul_digits [OF to_string_not_Nil _ _ assms(2), of n] assms(1)
  by (simp add: to_string_digits decimal_to_string)

subsection \<open>The dimensions\<close>

lemma regex_search_num_skip:
  "\<not> is_digit c \<Longrightarrow> regex_search_num (c # x) = regex_search_num x"
  by (simp add: regex_search_num_def)

lemma regex_search_num_digits:
  assumes "ds \<noteq> []" and "\<forall>c\<in>set ds. is_digit c" and "r = [] \<or> \<not> is_digit (hd r)"
  shows "regex_search_num (ds @ r) = Some (ds, r)"
proof -
  obtain d ds' where ds: "ds = d # ds'" using assms(1) by (cases ds) auto
  with assms(2) have d: "is_digit d" by simp
  have dw: "dropWhile (\<lambda>c. \<not> is_digit c) (ds @ r) = ds @ r"
    using ds d by simp
  have "takeWhile is_digit (ds @ r) = ds \<and> dropWhile is_digit (ds @ r) = r"
  proof (cases r)
    case Nil
    with assms(2) show ?thesis by simp
  next
    case (Cons x xs)
    with assms(3) have "\<not> is_digit x" by simp
    with Cons assms(2) show ?thesis
      by (simp add: takeWhile_append2 [of ds is_digit] dropWhile_append2 [of ds is_digit])
  qed
  with dw ds show ?thesis
    by (simp add: regex_search_num_def Let_def)
qed

lemma shape_loop_Nil: "shape_loop [] = Inr []"
  by (subst shape_loop.simps) (simp add: regex_search_num_def)

lemma shape_loop_skip: "\<not> is_digit c \<Longrightarrow> shape_loop (c # x) = shape_loop x"
  by (subst shape_loop.simps, subst (2) shape_loop.simps) (simp add: regex_search_num_skip)

lemma shape_loop_number:
  assumes "r = [] \<or> \<not> is_digit (hd r)"
  shows "shape_loop (to_string (unat s) @ r) =
           (case shape_loop r of Inl e \<Rightarrow> Inl e | Inr vs \<Rightarrow> Inr (s # vs))"
proof -
  have "unat s < 2 ^ 64"
    using unsigned_less [of s] by simp
  then have st: "stoul (to_string (unat s)) = Inr (unat s)"
    using stoul_to_string [of "unat s" "[]"] by simp
  have rs: "regex_search_num (to_string (unat s) @ r) = Some (to_string (unat s), r)"
    using regex_search_num_digits [OF to_string_not_Nil _ assms] to_string_digits by blast
  show ?thesis
    by (subst shape_loop.simps) (simp add: rs st split: sum.splits)
qed

lemma comma_space_not_digit: "\<not> is_digit (CHR '','')" "\<not> is_digit (CHR '' '')"
  by (simp_all add: is_digit_def)

lemma dict_dims_head: "dict_dims rest = [] \<or> \<not> is_digit (hd (dict_dims rest))"
  by (cases rest) (simp_all add: dict_dims_def comma_space_not_digit)

lemma shape_loop_dict_dims:
  "shape_loop (dict_dims rest @ (if b then '','' else [])) = Inr rest"
proof (induction rest)
  case Nil
  then show ?case
    by (simp add: dict_dims_def shape_loop_Nil shape_loop_skip comma_space_not_digit)
next
  case (Cons s rest)
  let ?t = "dict_dims rest @ (if b then '','' else [])"
  have h: "?t = [] \<or> \<not> is_digit (hd ?t)"
    using dict_dims_head [of rest]
    by (cases "dict_dims rest") (auto simp: comma_space_not_digit)
  have "dict_dims (s # rest) @ (if b then '','' else [])
          = CHR '','' # CHR '' '' # (to_string (unat s) @ ?t)"
    by (simp add: dict_dims_def)
  then show ?case
    using shape_loop_number [OF h, of s] Cons.IH
    by (simp add: shape_loop_skip comma_space_not_digit)
qed

lemma shape_loop_shape:
  "shape_loop (to_string (unat s0) @ dict_dims rest @ (if b then '','' else [])) = Inr (s0 # rest)"
proof -
  let ?t = "dict_dims rest @ (if b then '','' else [])"
  have h: "?t = [] \<or> \<not> is_digit (hd ?t)"
    using dict_dims_head [of rest]
    by (cases "dict_dims rest") (auto simp: comma_space_not_digit)
  from shape_loop_number [OF h, of s0] shape_loop_dict_dims [of rest b] show ?thesis
    by simp
qed

lemma paren_not_in_to_string: "CHR '')'' \<notin> set (to_string n)"
  using to_string_digits [of "CHR '')''" n] by (auto simp: is_digit_def)

lemma paren_not_in_dict_dims: "CHR '')'' \<notin> set (dict_dims rest)"
  by (induction rest) (simp_all add: dict_dims_def paren_not_in_to_string)

subsection \<open>The text up to the shape\<close>

lemma str_find_Some_bound: "str_find xs pat = Some j \<Longrightarrow> j + length pat \<le> length xs"
proof (induction xs arbitrary: j)
  case Nil
  then show ?case by (simp split: if_splits)
next
  case (Cons x xs)
  show ?case
  proof (cases "take (length pat) (x # xs) = pat")
    case True
    with Cons.prems have "j = 0" by simp
    with take_eq_length [OF True] show ?thesis by simp
  next
    case False
    with Cons.prems obtain k where k: "str_find xs pat = Some k" and j: "j = Suc k" by auto
    from Cons.IH [OF k] j show ?thesis by simp
  qed
qed

lemma prefix_ok_supported: "supported T \<Longrightarrow> prefix_ok (dict_prefix T) (sizeof T)"
  by (cases T)
    (simp_all add: supported_def prefix_ok_def dict_prefix_def quote_def BigEndianTest_little
      to_string.simps digit_char_def parse_fortran_order_def parse_word_size_def substr_def
      substr_from_def stoul_def isspace_def is_digit_def decimal_def digit_val_def)

lemma parse_fortran_order_prefix:
  assumes "prefix_ok P sz"
  shows "parse_fortran_order (P @ r) = Inr False"
proof -
  from assms obtain i where i: "str_find P ''fortran_order'' = Some i" and b: "i + 20 \<le> length P"
    and f: "parse_fortran_order P = Inr False"
    by (auto simp: prefix_ok_def split: option.splits)
  have t: "take 4 (drop (i + 16) (P @ r)) = take 4 (drop (i + 16) P)"
    using b by simp
  from f i b have "take 4 (drop (i + 16) P) \<noteq> ''True''"
    by (simp add: parse_fortran_order_def substr_def)
  with t str_find_append_left [OF i, of r] b show ?thesis
    by (simp add: parse_fortran_order_def substr_def)
qed

lemma parse_word_size_found:
  assumes "str_find X ''descr'' = Some l" and "11 + l \<le> length X"
  shows "parse_word_size X =
     (if \<not> (X ! (l + 9) = CHR ''<'' \<or> X ! (l + 9) = CHR ''|'') then Inl Endian_Check_Failed
      else
        (case stoul (case str_find (drop (11 + l) X) [quote] of
                       None \<Rightarrow> drop (11 + l) X
                     | Some loc2 \<Rightarrow> take loc2 (drop (11 + l) X)) of
           Inl e \<Rightarrow> Inl e
         | Inr v \<Rightarrow> Inr (word_of_nat v)))"
  using assms by (simp add: parse_word_size_def substr_from_def Let_def)

lemma parse_word_size_prefix:
  assumes "prefix_ok P sz"
  shows "parse_word_size (P @ r) = Inr (word_of_nat sz)"
proof -
  from assms obtain l q where l: "str_find P ''descr'' = Some l" and b: "11 + l \<le> length P"
    and q: "str_find (drop (11 + l) P) [quote] = Some q"
    and w: "parse_word_size P = Inr (word_of_nat sz)"
    by (auto simp: prefix_ok_def add.commute split: option.splits)
  from str_find_Some_bound [OF q] have qb: "q < length P - (11 + l)" by simp
  have n: "(P @ r) ! (l + 9) = P ! (l + 9)"
    using b by (simp add: nth_append)
  have d: "drop (11 + l) (P @ r) = drop (11 + l) P @ r"
    using b by simp
  have t: "take q (drop (11 + l) P @ r) = take q (drop (11 + l) P)"
    using qb by simp
  have l': "str_find (P @ r) ''descr'' = Some l"
    by (rule str_find_append_left [OF l])
  have b': "11 + l \<le> length (P @ r)"
    using b by simp
  have q': "str_find (drop (11 + l) P @ r) [quote] = Some q"
    by (rule str_find_append_left [OF q])
  have "parse_word_size (P @ r) = parse_word_size P"
    unfolding parse_word_size_found [OF l' b'] parse_word_size_found [OF l b] n d q q'
      option.case t ..
  with w show ?thesis by simp
qed

lemma parse_shape_prefix:
  assumes "prefix_ok P sz" and "CHR '')'' \<notin> set S" and "length S < 2 ^ 64"
  shows "parse_shape (P @ S @ CHR '')'' # r) = shape_loop S"
proof -
  from assms(1) have ne: "P \<noteq> []" and o: "str_find P ''('' = Some (length P - 1)"
    and np: "CHR '')'' \<notin> set P"
    by (auto simp: prefix_ok_def)
  have f1: "str_find (P @ S @ CHR '')'' # r) ''('' = Some (length P - 1)"
    by (rule str_find_append_left [OF o])
  have "str_find ((P @ S) @ CHR '')'' # r) '')'' = Some (length (P @ S))"
    by (rule str_find_char) (use np assms(2) in simp)
  then have f2: "str_find (P @ S @ CHR '')'' # r) '')'' = Some (length P + length S)"
    by simp
  from ne obtain n where lp: "length P = Suc n" by (cases P) auto
  then have "int (length P + length S) - int (length P - 1) - 1 = int (length S)"
    by simp
  moreover have "int (length S) mod 2 ^ 64 = int (length S)"
    using assms(3) by simp
  ultimately have c: "nat ((int (length P + length S) - int (length P - 1) - 1) mod 2 ^ 64)
      = length S"
    by simp
  from lp have p: "length P - 1 + 1 = length P" by simp
  show ?thesis
    unfolding parse_shape_def f1 f2 option.case c p
    by (simp add: substr_def)
qed

lemma parse_header_text_dict:
  assumes "supported T" and "npy_dict T (s0 # rest) = Inr dict" and "length dict < 2 ^ 64"
  shows "parse_header_text (dict @ r) = Inr (word_of_nat (sizeof T), s0 # rest, False)"
proof -
  let ?S = "to_string (unat s0) @ dict_dims rest @ (if rest = [] then '','' else [])"
  from assms(2) have d: "dict = dict_prefix T @ ?S @ ''), }''"
    by (simp add: npy_dict_Cons)
  have ok: "prefix_ok (dict_prefix T) (sizeof T)"
    by (rule prefix_ok_supported [OF assms(1)])
  have e: "dict @ r = dict_prefix T @ (?S @ ''), }'' @ r)"
    by (simp add: d)
  have e2: "dict @ r = dict_prefix T @ ?S @ CHR '')'' # ('', }'' @ r)"
    by (simp add: d)
  have np: "CHR '')'' \<notin> set ?S"
    using paren_not_in_to_string [of "unat s0"] paren_not_in_dict_dims [of rest] by simp
  have ls: "length ?S < 2 ^ 64"
    using assms(3) unfolding d by simp
  have "parse_shape (dict @ r) = shape_loop ?S"
    unfolding e2 by (rule parse_shape_prefix [OF ok np ls])
  also have "\<dots> = Inr (s0 # rest)"
    using shape_loop_shape [of s0 rest "rest = []"] by simp
  finally have s: "parse_shape (dict @ r) = Inr (s0 # rest)" .
  have f: "parse_fortran_order (dict @ r) = Inr False"
    unfolding e by (rule parse_fortran_order_prefix [OF ok])
  have w: "parse_word_size (dict @ r) = Inr (word_of_nat (sizeof T))"
    unfolding e by (rule parse_word_size_prefix [OF ok])
  show ?thesis
    by (simp add: parse_header_text_def f s w)
qed

subsection \<open>The header on a stream\<close>

lemma parse_npy_header_created:
  assumes "supported T" and "npy_dict T shp = Inr dict" and "header_fits dict"
    and "create_npy_header T shp = Inr h" and "at s (h @ rest)"
  shows "\<exists>s'. parse_npy_header s = Inr ((word_of_nat (sizeof T), shp, False), s')
          \<and> at s' rest \<and> content s' = content s \<and> rpos s' = rpos s + length h"
proof -
  from assms(2) obtain s0 ds where shp: "shp = s0 # ds"
    by (cases shp) (auto simp: npy_dict_Nil)
  let ?t = "padded dict"
  have ne: "?t \<noteq> []" and la: "last ?t = newline"
    by (simp_all add: padded_eq)
  have lt: "length ?t < 2 ^ 32"
    using assms(3) by (auto simp: header_fits_def split: if_splits intro: less_trans)
  have "length dict \<le> length ?t"
    by (simp add: length_padded)
  with lt have ld: "length dict < 2 ^ 64"
    by simp
  have pt: "parse_header_text ?t = Inr (word_of_nat (sizeof T), shp, False)"
    unfolding padded_eq shp
    by (rule parse_header_text_dict [OF assms(1) assms(2) [unfolded shp] ld])
  show ?thesis
  proof (cases "big_header dict")
    case False
    with assms(3) have f: "length ?t < 2 ^ 16"
      by (simp add: header_fits_def)
    then have m: "length ?t mod 2 ^ 16 = length ?t"
      by simp
    from create_npy_header_small [OF assms(2) False] assms(4)
    have h: "h = numpy_magic @ [CHR 0x01, CHR 0x00] @ le_bytes 2 (length ?t) @ ?t"
      unfolding m by simp
    have a: "at s (numpy_magic @ [CHR 0x01, CHR 0x00] @ le_bytes 2 (length ?t) @ ?t @ rest)"
      using assms(5) unfolding h by simp
    have lh: "length h = 10 + length ?t"
      unfolding h by (simp add: numpy_magic_def)
    from parse_npy_header_v1 [OF a refl f ne la] show ?thesis
      unfolding pt lh by (simp add: add.assoc)
  next
    case True
    have m: "length ?t mod 2 ^ 32 = length ?t"
      using lt by simp
    from create_npy_header_big [OF assms(2) True] assms(4)
    have h: "h = numpy_magic @ [CHR 0x02, CHR 0x00] @ le_bytes 4 (length ?t) @ ?t"
      unfolding m by simp
    have a: "at s (numpy_magic @ [CHR 0x02, CHR 0x00] @ le_bytes 4 (length ?t) @ ?t @ rest)"
      using assms(5) unfolding h by simp
    have lh: "length h = 12 + length ?t"
      unfolding h by (simp add: numpy_magic_def)
    from parse_npy_header_v2 [OF a refl lt ne la] show ?thesis
      unfolding pt lh by (simp add: add.assoc)
  qed
qed

section \<open>Facts about appending to an array file\<close>

lemma create_npy_header_Inr: "shp \<noteq> [] \<Longrightarrow> \<exists>h. create_npy_header T shp = Inr h"
  by (cases shp) (simp_all add: create_npy_header_def npy_dict_Cons Let_def)

lemma find_mismatch_None:
  "(find (\<lambda>i. shp ! i \<noteq> ds ! i) [1..<length shp] = None)
     = (\<forall>i. 1 \<le> i \<and> i < length shp \<longrightarrow> shp ! i = ds ! i)"
  by (auto simp: find_None_iff)

lemma find_mismatch_Some:
  "\<exists>i. 1 \<le> i \<and> i < length shp \<and> shp ! i \<noteq> ds ! i
     \<Longrightarrow> \<exists>j. find (\<lambda>i. shp ! i \<noteq> ds ! i) [1..<length shp] = Some j"
  using find_mismatch_None [of shp ds] by (cases "find (\<lambda>i. shp ! i \<noteq> ds ! i) [1..<length shp]") auto

lemma append_shape_grows:
  assumes "parse_npy_header (open_stream old) = Inr ((ws, ds, True), s1)"
    and "ws = word_of_nat (sizeof T)" and "length ds = length shp" and "shp \<noteq> []"
    and "\<forall>i. 1 \<le> i \<and> i < length shp \<longrightarrow> shp ! i = ds ! i"
  shows "append_shape T old shp = Inr (ds[0 := ds ! 0 + shp ! 0])"
proof -
  from assms(5) have "find (\<lambda>i. shp ! i \<noteq> ds ! i) [1..<length shp] = None"
    by (simp only: find_mismatch_None)
  moreover from assms(3,4) have "ds \<noteq> []" by auto
  ultimately show ?thesis
    using assms(1-3) by (simp add: append_shape_def)
qed

lemma append_shape_refuses:
  assumes "parse_npy_header (open_stream old) = Inr ((ws, ds, fo), s1)"
    and "\<not> fo \<or> ws \<noteq> word_of_nat (sizeof T) \<or> length ds \<noteq> length shp
         \<or> (\<exists>i. 1 \<le> i \<and> i < length shp \<and> shp ! i \<noteq> ds ! i)"
  shows "\<exists>e. append_shape T old shp = Inl e"
proof (cases "\<exists>i. 1 \<le> i \<and> i < length shp \<and> shp ! i \<noteq> ds ! i")
  case True
  from find_mismatch_Some [OF True] obtain j where
    "find (\<lambda>i. shp ! i \<noteq> ds ! i) [1..<length shp] = Some j" ..
  with assms(1) show ?thesis
    by (simp add: append_shape_def)
next
  case False
  with assms show ?thesis
    by (auto simp: append_shape_def)
qed

lemma npy_save_append_written:
  assumes "append_shape T old shp = Inr t" and "create_npy_header T t = Inr h"
    and "n = unat (word_of_nat (sizeof T) * foldl (\<lambda>a d. a * d) 1 shp)" and "n \<le> length data"
  shows "npy_save T (Some old) data shp ''a'' = Inr (h @ drop (length h) old @ take n data)"
  using assms by (simp add: npy_save_def write_at_def Let_def)

lemma npy_save_append_refused:
  assumes "append_shape T old shp = Inl e"
  shows "npy_save T (Some old) data shp ''a'' = Inl e"
  using assms by (simp add: npy_save_def)

lemma example_padded_text_parse: "parse_header_text example_padded_text = Inr (1, [1, 3], True)"
  by (simp add: parse_header_text_def example_padded_text_def
      parse_fortran_order_def parse_shape_def parse_word_size_def substr_def substr_from_def
      quote_def shape_loop.simps regex_search_num_def is_digit_def stoul_def isspace_def
      decimal_def digit_val_def space_def newline_def)

lemma example_padded_file_parse:
  "\<exists>hs. parse_npy_header (open_stream example_padded_file) = Inr ((1, [1, 3], True), hs)
      \<and> at hs ''abc'' \<and> rpos hs = 129"
proof -
  have "at (open_stream example_padded_file)
     (numpy_magic @ [CHR 0x01, CHR 0x00] @ le_bytes 2 119 @ example_padded_text @ ''abc'')"
    unfolding example_padded_file_def by (rule at_open_stream)
  moreover have "example_padded_text \<noteq> []" "length example_padded_text = 119"
    "last example_padded_text = newline"
    by (simp_all add: example_padded_text_def)
  moreover have "rpos (open_stream example_padded_file) = 0"
    by (simp add: open_stream_def)
  ultimately show ?thesis
    using parse_npy_header_v1 [of "open_stream example_padded_file" 119 example_padded_text "''abc''"]
    by (simp add: example_padded_text_parse del: le_bytes_numeral) blast
qed

lemma parse_npy_header_payload:
  assumes "parse_npy_header (open_stream old) = Inr (r, s1)" and "at s1 payload"
  shows "drop (rpos s1) old = payload"
proof -
  from parse_npy_header_stream_le [OF assms(1)] have "content s1 = old"
    by (simp add: stream_le_def open_stream_def)
  with assms(2) show ?thesis
    by (simp add: at_def)
qed

text \<open>
  Claim C4. On a file whose header is read as word size \<open>ws\<close>, shape \<open>ds\<close> and order
  flag \<open>fo\<close>, \<open>npy_save\<close> in mode \<open>a\<close> with a shape that is not empty and data of the
  size it declares raises an error exactly when the flag is false, or the word size is
  not the size of the element type, or the ranks differ, or a dimension after the first
  differs from the dimension of the file; in every other case it returns a file.
\<close>

theorem npy_save_append_error:
  assumes "parse_npy_header (open_stream old) = Inr ((ws, ds, fo), s1)"
    and "shp \<noteq> []"
    and "unat (word_of_nat (sizeof T) * foldl (\<lambda>a d. a * d) 1 shp) \<le> length data"
  shows "(\<exists>e. npy_save T (Some old) data shp ''a'' = Inl e)
     = (\<not> fo \<or> ws \<noteq> word_of_nat (sizeof T) \<or> length ds \<noteq> length shp
        \<or> (\<exists>i. 1 \<le> i \<and> i < length shp \<and> shp ! i \<noteq> ds ! i))"
    (is "?fails = ?refused")
proof
  assume ?refused
  from append_shape_refuses [OF assms(1) this] obtain e where
    "append_shape T old shp = Inl e" ..
  from npy_save_append_refused [OF this] show ?fails ..
next
  assume f: ?fails
  show ?refused
  proof (rule ccontr)
    assume n: "\<not> ?refused"
    then have fo: "fo" and ws: "ws = word_of_nat (sizeof T)" and l: "length ds = length shp"
      and d: "\<forall>i. 1 \<le> i \<and> i < length shp \<longrightarrow> shp ! i = ds ! i"
      by auto
    from assms(1) fo have p: "parse_npy_header (open_stream old) = Inr ((ws, ds, True), s1)"
      by simp
    let ?t = "ds[0 := ds ! 0 + shp ! 0]"
    have a: "append_shape T old shp = Inr ?t"
      by (rule append_shape_grows [OF p ws l assms(2) d])
    from l assms(2) have "?t \<noteq> []" by auto
    from create_npy_header_Inr [OF this] obtain h where h: "create_npy_header T ?t = Inr h" ..
    from npy_save_append_written [OF a h refl assms(3)] f show False
      by simp
  qed
qed

theorem npy_save_append_error_witness:
  "(\<exists>f. npy_save T_Char (Some example_file) ''defghi'' [2, 3] ''a'' = Inr f)
   \<and> (\<exists>e. npy_save T_Short (Some example_file) ''defghijklmno'' [2, 3] ''a'' = Inl e)"
proof
  from example_file_parse obtain hs where
    p: "parse_npy_header (open_stream example_file) = Inr ((1, [1, 3], True), hs)"
    by blast
  have i: "\<not> (\<exists>i. 1 \<le> i \<and> i < length [2, 3 :: size_t] \<and> [2, 3 :: size_t] ! i \<noteq> [1, 3] ! i)"
    by (auto simp: less_Suc_eq)
  have "\<not> (\<exists>e. npy_save T_Char (Some example_file) ''defghi'' [2, 3] ''a'' = Inl e)"
    using npy_save_append_error [OF p, of "[2, 3]" T_Char "''defghi''"] i
    by simp
  then show "\<exists>f. npy_save T_Char (Some example_file) ''defghi'' [2, 3] ''a'' = Inr f"
    by (cases "npy_save T_Char (Some example_file) ''defghi'' [2, 3] ''a''") auto
  show "\<exists>e. npy_save T_Short (Some example_file) ''defghijklmno'' [2, 3] ''a'' = Inl e"
    using npy_save_append_error [OF p, of "[2, 3]" T_Short "''defghijklmno''"]
    by simp
qed

theorem npy_save_append_dimension_counterexample:
  "\<exists>s1. parse_npy_header (open_stream example_file) = Inr ((1, [1, 3], True), s1)
     \<and> (1 :: size_t) = word_of_nat (sizeof T_Char)
     \<and> length [1, 3 :: size_t] = length [2, 4 :: size_t]
     \<and> npy_save T_Char (Some example_file) ''abcdefgh'' [2, 4] ''a''
         = Inl (Append_Wrong_Dimension 4 3)"
proof -
  from example_file_parse obtain hs where
    p: "parse_npy_header (open_stream example_file) = Inr ((1, [1, 3], True), hs)"
    by blast
  have "append_shape T_Char example_file [2, 4] = Inl (Append_Wrong_Dimension 4 3)"
    by (simp add: append_shape_def p upt_rec)
  from npy_save_append_refused [OF this] p show ?thesis
    by simp
qed

text \<open>The case in which the rewrite keeps the payload: the header of the grown shape
  is as long as the header of the file. Then \<open>npy_save\<close> in mode \<open>a\<close> returns that
  header, the old payload and the new bytes, and the result is read back with the shape
  grown in dimension 0, before the old payload followed by the new bytes.\<close>

lemma npy_save_append_same_length:
  assumes "parse_npy_header (open_stream old) = Inr ((ws, ds, True), s1)"
    and "at s1 payload"
    and "ws = word_of_nat (sizeof T)" and "length ds = length shp" and "shp \<noteq> []"
    and "\<forall>i. 1 \<le> i \<and> i < length shp \<longrightarrow> shp ! i = ds ! i"
    and "create_npy_header T (ds[0 := ds ! 0 + shp ! 0]) = Inr h"
    and "length h = rpos s1"
    and "n = unat (word_of_nat (sizeof T) * foldl (\<lambda>a d. a * d) 1 shp)"
    and "n \<le> length data"
    and "supported T" and "npy_dict T (ds[0 := ds ! 0 + shp ! 0]) = Inr dict"
    and "header_fits dict"
  shows "\<exists>s2. npy_save T (Some old) data shp ''a'' = Inr (h @ payload @ take n data)
     \<and> parse_npy_header (open_stream (h @ payload @ take n data))
         = Inr ((word_of_nat (sizeof T), ds[0 := ds ! 0 + shp ! 0], False), s2)
     \<and> at s2 (payload @ take n data)"
proof -
  let ?t = "ds[0 := ds ! 0 + shp ! 0]"
  have a: "append_shape T old shp = Inr ?t"
    by (rule append_shape_grows [OF assms(1,3,4,5,6)])
  have d: "drop (length h) old = payload"
    unfolding assms(8) by (rule parse_npy_header_payload [OF assms(1,2)])
  have s: "npy_save T (Some old) data shp ''a'' = Inr (h @ payload @ take n data)"
    using npy_save_append_written [OF a assms(7,9,10)] unfolding d .
  have "at (open_stream (h @ payload @ take n data)) (h @ payload @ take n data)"
    by (rule at_open_stream)
  from parse_npy_header_created [OF assms(11,12,13,7) this] s show ?thesis
    by blast
qed

lemma example_grown_dict:
  "npy_dict T_Char [3, 3] = Inr ''{'descr': '<i1', 'fortran_order': False, 'shape': (3, 3), }''"
  by (simp add: npy_dict_def BigEndianTest_little quote_def to_string.simps digit_char_def)

lemma example_grown_padded:
  "padded ''{'descr': '<i1', 'fortran_order': False, 'shape': (3, 3), }''
     = ''{'descr': '<i1', 'fortran_order': False, 'shape': (3, 3), }''
         @ replicate 59 space @ [newline]"
  by (simp add: padded_eq remainder_def big_header_def numpy_magic_length_def)

lemma example_grown_header_created:
  "create_npy_header T_Char [3, 3] = Inr example_grown_header"
  unfolding example_grown_header_def
  by (simp add: create_npy_header_def example_grown_dict example_grown_padded big_header_def
      char_of_eq_iff)

lemma example_grown_fits:
  "header_fits ''{'descr': '<i1', 'fortran_order': False, 'shape': (3, 3), }''"
  by (simp add: header_fits_def example_grown_padded big_header_def)

lemma npy_save_append_padded_file:
  "\<exists>s2. npy_save T_Char (Some example_padded_file) ''defghi'' [2, 3] ''a''
         = Inr (example_grown_header @ ''abc'' @ ''defghi'')
     \<and> parse_npy_header (open_stream (example_grown_header @ ''abc'' @ ''defghi''))
         = Inr ((1, [3, 3], False), s2)
     \<and> at s2 (''abc'' @ ''defghi'')"
proof -
  let ?dict = "''{'descr': '<i1', 'fortran_order': False, 'shape': (3, 3), }''"
  from example_padded_file_parse obtain hs where
    p: "parse_npy_header (open_stream example_padded_file) = Inr ((1, [1, 3], True), hs)"
    and a: "at hs ''abc''" and r: "rpos hs = 129"
    by blast
  have w: "(1 :: size_t) = word_of_nat (sizeof T_Char)"
    by simp
  have l: "length [1, 3 :: size_t] = length [2, 3 :: size_t]" and ne: "[2, 3 :: size_t] \<noteq> []"
    by simp_all
  have t: "\<forall>i. 1 \<le> i \<and> i < length [2, 3 :: size_t] \<longrightarrow> [2, 3 :: size_t] ! i = [1, 3] ! i"
    by (auto simp: less_Suc_eq)
  have g: "[1, 3][0 := [1, 3] ! 0 + [2, 3] ! 0] = [3, 3 :: size_t]"
    by simp
  have d: "npy_dict T_Char ([1, 3][0 := [1, 3] ! 0 + [2, 3] ! 0]) = Inr ?dict"
    unfolding g by (rule example_grown_dict)
  have c: "create_npy_header T_Char ([1, 3][0 := [1, 3] ! 0 + [2, 3] ! 0])
             = Inr example_grown_header"
    unfolding g by (rule example_grown_header_created)
  have f: "header_fits ?dict"
    by (rule example_grown_fits)
  have lh: "length example_grown_header = rpos hs"
    by (simp add: example_grown_header_def numpy_magic_def r)
  have n: "unat (word_of_nat (sizeof T_Char) * foldl (\<lambda>a d. a * d) 1 [2, 3 :: size_t])
             \<le> length ''defghi''"
    by simp
  have s: "supported T_Char"
    by (simp add: supported_def)
  from npy_save_append_same_length [OF p a w l ne t c lh refl n s d f] show ?thesis
    by simp
qed

text \<open>The header that is written declares the order flag false, so a file that
  \<open>npy_save\<close> has written is refused when it is appended to.\<close>

lemma npy_save_then_append:
  assumes "supported T" and "npy_dict T shp = Inr dict" and "header_fits dict"
    and "npy_save T None data shp ''w'' = Inr f"
  shows "npy_save T' (Some f) data' shp' ''a'' = Inl Append_Fortran_Order"
proof -
  from assms(2) obtain h where h: "create_npy_header T shp = Inr h"
    by (auto simp: create_npy_header_def Let_def)
  from assms(4) obtain rest where f: "f = h @ rest"
    by (auto simp: npy_save_def h write_at_def Let_def split: if_splits)
  have "at (open_stream f) (h @ rest)"
    unfolding f by (rule at_open_stream)
  from parse_npy_header_created [OF assms(1,2,3) h this] obtain s' where
    "parse_npy_header (open_stream f) = Inr ((word_of_nat (sizeof T), shp, False), s')"
    by blast
  then have "append_shape T' f shp' = Inl Append_Fortran_Order"
    by (simp add: append_shape_def)
  then show ?thesis
    by (rule npy_save_append_refused)
qed

text \<open>So it is with the file that an append returns: a second append to it is
  refused.\<close>

lemma npy_save_append_twice:
  "npy_save T_Char (Some (example_grown_header @ ''abc'' @ ''defghi'')) ''jklmnopqr'' [3, 3] ''a''
     = Inl Append_Fortran_Order"
proof -
  let ?f = "example_grown_header @ ''abc'' @ ''defghi''"
  have "at (open_stream ?f) ?f"
    by (rule at_open_stream)
  moreover have "supported T_Char"
    by (simp add: supported_def)
  ultimately obtain s' where
    "parse_npy_header (open_stream ?f) = Inr ((word_of_nat (sizeof T_Char), [3, 3], False), s')"
    using parse_npy_header_created [OF _ example_grown_dict example_grown_fits
        example_grown_header_created]
    by blast
  then have "append_shape T_Char ?f [3, 3] = Inl Append_Fortran_Order"
    by (simp add: append_shape_def)
  then show ?thesis
    by (rule npy_save_append_refused)
qed

section \<open>Appending to a file with an aligned header\<close>

lemma create_npy_header_length_not_aligned:
  assumes "create_npy_header T shp = Inr h" and "n mod 16 = 0"
  shows "length h \<noteq> n"
proof
  assume e: "length h = n"
  have "length h mod 64 mod 16 = length h mod 16"
    by (rule mod_mod_cancel) simp
  with create_npy_header_length_mod_64 [OF assms(1)] have "length h mod 16 = 1"
    by simp
  with e assms(2) show False
    by simp
qed

text \<open>An append that passes the checks, to a file whose header ends at a multiple of 16
  bytes and is followed by a payload: the header that is written has another length,
  and what follows it in the result is not the old payload.\<close>

lemma npy_save_append_aligned:
  assumes "parse_npy_header (open_stream old) = Inr ((ws, ds, True), s1)"
    and "ws = word_of_nat (sizeof T)" and "length ds = length shp" and "shp \<noteq> []"
    and "\<forall>i. 1 \<le> i \<and> i < length shp \<longrightarrow> shp ! i = ds ! i"
    and "n = unat (word_of_nat (sizeof T) * foldl (\<lambda>a d. a * d) 1 shp)"
    and "n \<le> length data"
    and "rpos s1 mod 16 = 0" and "rpos s1 < length old"
  shows "\<exists>h. create_npy_header T (ds[0 := ds ! 0 + shp ! 0]) = Inr h
     \<and> npy_save T (Some old) data shp ''a'' = Inr (h @ drop (length h) old @ take n data)
     \<and> length h \<noteq> rpos s1
     \<and> drop (length h) old \<noteq> drop (rpos s1) old"
proof -
  let ?t = "ds[0 := ds ! 0 + shp ! 0]"
  have a: "append_shape T old shp = Inr ?t"
    by (rule append_shape_grows [OF assms(1-5)])
  from assms(3,4) have "?t \<noteq> []" by auto
  from create_npy_header_Inr [OF this] obtain h where h: "create_npy_header T ?t = Inr h" ..
  have l: "length h \<noteq> rpos s1"
    by (rule create_npy_header_length_not_aligned [OF h assms(8)])
  have "length (drop (length h) old) \<noteq> length (drop (rpos s1) old)"
    using l assms(9) by simp
  then have "drop (length h) old \<noteq> drop (rpos s1) old"
    by (rule contrapos_nn) (simp only:)
  with h l npy_save_append_written [OF a h assms(6,7)] show ?thesis
    by blast
qed

lemma example_aligned_text_parse: "parse_header_text example_aligned_text = Inr (1, [1, 3], True)"
  by (simp add: parse_header_text_def example_aligned_text_def
      parse_fortran_order_def parse_shape_def parse_word_size_def substr_def substr_from_def
      quote_def shape_loop.simps regex_search_num_def is_digit_def stoul_def isspace_def
      decimal_def digit_val_def space_def newline_def)

lemma example_aligned_file_parse:
  "\<exists>hs. parse_npy_header (open_stream example_aligned_file) = Inr ((1, [1, 3], True), hs)
      \<and> at hs ''abc'' \<and> rpos hs = 128"
proof -
  have "at (open_stream example_aligned_file)
     (numpy_magic @ [CHR 0x01, CHR 0x00] @ le_bytes 2 118 @ example_aligned_text @ ''abc'')"
    unfolding example_aligned_file_def by (rule at_open_stream)
  moreover have "example_aligned_text \<noteq> []" "length example_aligned_text = 118"
    "last example_aligned_text = newline"
    by (simp_all add: example_aligned_text_def)
  moreover have "rpos (open_stream example_aligned_file) = 0"
    by (simp add: open_stream_def)
  ultimately show ?thesis
    using parse_npy_header_v1 [of "open_stream example_aligned_file" 118 example_aligned_text "''abc''"]
    by (simp add: example_aligned_text_parse del: le_bytes_numeral) blast
qed

lemma example_grown_header_length: "length example_grown_header = 129"
  by (simp add: example_grown_header_def numpy_magic_def)

lemma example_aligned_file_tail: "drop 129 example_aligned_file = ''bc''"
  by (simp add: example_aligned_file_def example_aligned_text_def numpy_magic_def)

text \<open>
  Claim C3. A file as numpy writes it: one-byte integers in Fortran order of shape
  (1, 3), a header of 128 bytes and the payload \<open>abc\<close>. Order flag, word size, rank
  and trailing dimension allow an append of shape (2, 3), and \<open>npy_save\<close> in mode \<open>a\<close>
  returns the header of 129 bytes for the shape (3, 3) followed by \<open>bc\<close> and the new
  bytes: the first byte of the old payload is overwritten. The file that results
  declares 9 bytes and holds 8, and \<open>npy_load\<close> fails on it.
\<close>

theorem npy_save_append_overwrites:
  "(\<exists>s1. parse_npy_header (open_stream example_aligned_file) = Inr ((1, [1, 3], True), s1)
      \<and> at s1 ''abc'' \<and> rpos s1 = 128)
   \<and> length example_grown_header = 129
   \<and> npy_save T_Char (Some example_aligned_file) ''defghi'' [2, 3] ''a''
       = Inr (example_grown_header @ ''bc'' @ ''defghi'')
   \<and> (\<exists>s2. parse_npy_header (open_stream (example_grown_header @ ''bc'' @ ''defghi''))
             = Inr ((1, [3, 3], False), s2)
          \<and> at s2 (''bc'' @ ''defghi''))
   \<and> npy_load (Some (example_grown_header @ ''bc'' @ ''defghi'')) = Inl Failed_Fread"
proof -
  let ?f = "example_grown_header @ ''bc'' @ ''defghi''"
  from example_aligned_file_parse obtain hs where
    p: "parse_npy_header (open_stream example_aligned_file) = Inr ((1, [1, 3], True), hs)"
    and a: "at hs ''abc''" and r: "rpos hs = 128"
    by blast
  have t: "\<forall>i. 1 \<le> i \<and> i < length [2, 3 :: size_t] \<longrightarrow> [2, 3 :: size_t] ! i = [1, 3] ! i"
    by (auto simp: less_Suc_eq)
  have g: "[1, 3][0 := [1, 3] ! 0 + [2, 3] ! 0] = [3, 3 :: size_t]"
    by simp
  have "append_shape T_Char example_aligned_file [2, 3] = Inr ([1, 3][0 := [1, 3] ! 0 + [2, 3] ! 0])"
    by (rule append_shape_grows [OF p _ _ _ t]) simp_all
  then have ap: "append_shape T_Char example_aligned_file [2, 3] = Inr [3, 3]"
    unfolding g .
  have n: "unat (word_of_nat (sizeof T_Char) * foldl (\<lambda>a d. a * d) 1 [2, 3 :: size_t])
             \<le> length ''defghi''"
    by simp
  from npy_save_append_written [OF ap example_grown_header_created refl n]
  have s: "npy_save T_Char (Some example_aligned_file) ''defghi'' [2, 3] ''a'' = Inr ?f"
    by (simp add: example_grown_header_length example_aligned_file_tail)
  have o: "at (open_stream ?f) ?f"
    by (rule at_open_stream)
  have "supported T_Char"
    by (simp add: supported_def)
  from parse_npy_header_created [OF this example_grown_dict example_grown_fits
      example_grown_header_created o]
  obtain s2 where p2: "parse_npy_header (open_stream ?f) = Inr ((1, [3, 3], False), s2)"
    and a2: "at s2 (''bc'' @ ''defghi'')"
    by auto
  have "\<not> failbit (open_stream ?f)"
    by (simp add: open_stream_def)
  from load_the_npy_file_short [OF this p2 a2]
  have "load_the_npy_file (open_stream ?f) = Inl Failed_Fread"
    by simp
  then have l: "npy_load (Some ?f) = Inl Failed_Fread"
    by (simp add: npy_load_def)
  from p a r s p2 a2 l show ?thesis
    by (auto simp: example_grown_header_length)
qed

end
